theory Spec2Isabelle
  imports Complex_Main
begin

section \<open>Game state model (src/main.py, lines 7-61)\<close>

text \<open>
  Python exceptions the modelled functions can raise. A function that can raise returns
  \<open>error + 'a\<close>, with \<open>Inl\<close> for the exception.
\<close>

datatype error = IndexError | ValueError | ZeroDivisionError | StopIteration | TypeError

text \<open>\<open>class Turn(Enum): x = 1; o = 2\<close>, and \<open>Turn.value\<close>.\<close>

datatype Turn = Turn_x | Turn_o

fun turn_value :: "Turn \<Rightarrow> int" where
  "turn_value Turn_x = 1"
| "turn_value Turn_o = 2"

text \<open>
  \<open>State\<close>: the board is a list of rows of Python ints (the source never checks that it
  is 3 by 3, nor that its cells are 0, 1 or 2), and the side to move.
\<close>

record State =
  board :: "int list list"
  turn :: Turn

text \<open>
  \<open>state.board[x][y]\<close> for indices that are not negative: an index past the end raises
  IndexError.
\<close>

definition board_get :: "int list list \<Rightarrow> nat \<Rightarrow> nat \<Rightarrow> error + int" where
  "board_get b i j =
     (if i < length b then (if j < length (b ! i) then Inr (b ! i ! j) else Inl IndexError)
      else Inl IndexError)"

text \<open>Python's index normalisation for a list of length \<open>n\<close>: negative indices count from the end.\<close>

definition py_index :: "nat \<Rightarrow> int \<Rightarrow> error + nat" where
  "py_index n i =
     (if 0 \<le> i \<and> i < int n then Inr (nat i)
      else if i < 0 \<and> - int n \<le> i then Inr (nat (int n + i))
      else Inl IndexError)"

text \<open>
  \<open>get_valid_actions\<close>: the comprehension over \<open>x in range(3)\<close>, \<open>y in range(3)\<close>, keeping
  \<open>[x, y]\<close> where \<open>state.board[x][y] == 0\<close>. Every cell of the 3 by 3 range is read, so a
  board with a missing cell there raises IndexError.
\<close>

definition all_cells :: "(nat \<times> nat) list" where
  "all_cells = [(0, 0), (0, 1), (0, 2), (1, 0), (1, 1), (1, 2), (2, 0), (2, 1), (2, 2)]"

fun scan_cells :: "int list list \<Rightarrow> (nat \<times> nat) list \<Rightarrow> error + (int \<times> int) list" where
  "scan_cells b [] = Inr []"
| "scan_cells b ((i, j) # cs) =
     (case board_get b i j of
        Inl e \<Rightarrow> Inl e
      | Inr v \<Rightarrow>
          (case scan_cells b cs of
             Inl e \<Rightarrow> Inl e
           | Inr acts \<Rightarrow> Inr (if v = 0 then (int i, int j) # acts else acts)))"

definition get_valid_actions :: "State \<Rightarrow> error + (int \<times> int) list" where
  "get_valid_actions s = scan_cells (board s) all_cells"

text \<open>
  \<open>apply_action\<close>: copies the rows, writes the mover's value at \<open>new_board[x][y]\<close> with no
  test of what the cell holds, and flips the turn. The indices are Python ints, so a
  negative one counts from the end and one out of range raises IndexError.
\<close>

definition apply_action :: "int \<times> int \<Rightarrow> State \<Rightarrow> error + State" where
  "apply_action action s =
     (case action of (ax, ay) \<Rightarrow>
        (case py_index (length (board s)) ax of
           Inl e \<Rightarrow> Inl e
         | Inr i \<Rightarrow>
             (case py_index (length (board s ! i)) ay of
                Inl e \<Rightarrow> Inl e
              | Inr j \<Rightarrow>
                  Inr \<lparr>board = (board s)[i := (board s ! i)[j := turn_value (turn s)]],
                       turn = (if turn s = Turn_x then Turn_o else Turn_x)\<rparr>)))"

text \<open>
  \<open>zip(*state.board)\<close>: the columns, cut at the shortest row; no column for a board with
  no row.
\<close>

definition min_len :: "'a list list \<Rightarrow> nat" where
  "min_len b = foldr (\<lambda>r m. min (length r) m) (tl b) (length (hd b))"

definition zip_star :: "'a list list \<Rightarrow> 'a list list" where
  "zip_star b = (if b = [] then [] else map (\<lambda>j. map (\<lambda>r. r ! j) b) [0..<min_len b])"

text \<open>\<open>[state.board[i][j] for (i, j) in cells]\<close>, the two diagonals' comprehensions.\<close>

fun read_cells :: "int list list \<Rightarrow> (nat \<times> nat) list \<Rightarrow> error + int list" where
  "read_cells b [] = Inr []"
| "read_cells b ((i, j) # cs) =
     (case board_get b i j of
        Inl e \<Rightarrow> Inl e
      | Inr v \<Rightarrow> (case read_cells b cs of Inl e \<Rightarrow> Inl e | Inr vs \<Rightarrow> Inr (v # vs)))"

text \<open>
  \<open>check_win_conditions\<close>: the rows, the columns and the two diagonals; the result is
  \<open>state.turn\<close> when \<open>[state.turn.value] * 3\<close> is one of the lines, and None otherwise.
\<close>

definition win_lines :: "int list list \<Rightarrow> error + int list list" where
  "win_lines b =
     (case read_cells b [(0, 0), (1, 1), (2, 2)] of
        Inl e \<Rightarrow> Inl e
      | Inr d1 \<Rightarrow>
          (case read_cells b [(0, 2), (1, 1), (2, 0)] of
             Inl e \<Rightarrow> Inl e
           | Inr d2 \<Rightarrow> Inr (b @ zip_star b @ [d1, d2])))"

definition check_win_conditions :: "State \<Rightarrow> error + Turn option" where
  "check_win_conditions s =
     (case win_lines (board s) of
        Inl e \<Rightarrow> Inl e
      | Inr ls \<Rightarrow>
          Inr (if replicate 3 (turn_value (turn s)) \<in> set ls then Some (turn s) else None))"

text \<open>The boards of the data model: three rows of three cells.\<close>

definition wf_board :: "int list list \<Rightarrow> bool" where
  "wf_board b = (length b = 3 \<and> list_all (\<lambda>r. length r = 3) b)"

text \<open>The number of empty cells of a board.\<close>

definition count_empty :: "int list list \<Rightarrow> nat" where
  "count_empty b = sum_list (map (\<lambda>r. length (filter (\<lambda>c. c = 0) r)) b)"

subsection \<open>Facts about the game state model\<close>

lemma turn_value_nonzero: "turn_value t \<noteq> 0"
  by (cases t) simp_all

lemma wf_board_rows:
  assumes "wf_board b"
  obtains r0 r1 r2 where "b = [r0, r1, r2]" "length r0 = 3" "length r1 = 3" "length r2 = 3"
proof -
  from assms have len: "length b = 3" and rows: "list_all (\<lambda>r. length r = 3) b"
    by (simp_all add: wf_board_def)
  from len obtain r0 r1 r2 where b: "b = [r0, r1, r2]"
    by (cases b; cases "tl b"; cases "tl (tl b)") auto
  with rows show thesis
    using that by simp
qed

lemma wf_board_cells:
  assumes "wf_board b"
  obtains c00 c01 c02 c10 c11 c12 c20 c21 c22
  where "b = [[c00, c01, c02], [c10, c11, c12], [c20, c21, c22]]"
proof -
  from assms obtain r0 r1 r2 where b: "b = [r0, r1, r2]"
    and l: "length r0 = 3" "length r1 = 3" "length r2 = 3"
    by (rule wf_board_rows)
  have three: "\<And>r :: int list. length r = 3 \<Longrightarrow> \<exists>u v w. r = [u, v, w]"
  proof -
    fix r :: "int list"
    assume "length r = 3"
    then show "\<exists>u v w. r = [u, v, w]"
      by (cases r; cases "tl r"; cases "tl (tl r)") auto
  qed
  from three[OF l(1)] three[OF l(2)] three[OF l(3)] b show thesis
    using that by blast
qed

lemma scan_cells_members:
  "scan_cells b cs = Inr acts \<Longrightarrow> (ax, ay) \<in> set acts \<Longrightarrow>
   \<exists>i j. (i, j) \<in> set cs \<and> ax = int i \<and> ay = int j \<and> i < length b \<and> j < length (b ! i) \<and> b ! i ! j = 0"
proof (induction b cs arbitrary: acts rule: scan_cells.induct)
  case (1 b)
  then show ?case by simp
next
  case (2 b i j cs)
  then show ?case
    by (fastforce simp: board_get_def split: sum.splits if_splits)
qed

lemma scan_cells_in_range:
  "scan_cells b cs = Inr acts \<Longrightarrow> (i, j) \<in> set cs \<Longrightarrow> i < length b \<and> j < length (b ! i)"
proof (induction b cs arbitrary: acts rule: scan_cells.induct)
  case (1 b)
  then show ?case by simp
next
  case (2 b i' j' cs)
  then show ?case
    by (fastforce simp: board_get_def split: sum.splits if_splits)
qed

lemma scan_cells_empty_cell:
  "scan_cells b cs = Inr acts \<Longrightarrow> (i, j) \<in> set cs \<Longrightarrow> b ! i ! j = 0 \<Longrightarrow> (int i, int j) \<in> set acts"
proof (induction b cs arbitrary: acts rule: scan_cells.induct)
  case (1 b)
  then show ?case by simp
next
  case (2 b i' j' cs)
  then show ?case
    by (fastforce simp: board_get_def split: sum.splits if_splits)
qed

lemma scan_cells_length:
  "scan_cells b cs = Inr acts \<Longrightarrow> length acts = length (filter (\<lambda>(i, j). b ! i ! j = 0) cs)"
proof (induction b cs arbitrary: acts rule: scan_cells.induct)
  case (1 b)
  then show ?case by simp
next
  case (2 b i' j' cs)
  then show ?case
    by (auto simp: board_get_def split: sum.splits if_splits)
qed

lemma scan_cells_ok:
  "\<forall>(i, j) \<in> set cs. i < length b \<and> j < length (b ! i) \<Longrightarrow> \<exists>acts. scan_cells b cs = Inr acts"
proof (induction b cs rule: scan_cells.induct)
  case (1 b)
  then show ?case by simp
next
  case (2 b i' j' cs)
  then show ?case
    by (auto simp: board_get_def split: sum.splits if_splits)
qed

lemma py_index_nat: "i < n \<Longrightarrow> py_index n (int i) = Inr i"
  by (simp add: py_index_def)

lemma get_valid_actions_wf:
  "wf_board (board s) \<Longrightarrow> \<exists>acts. get_valid_actions s = Inr acts"
  unfolding get_valid_actions_def
  by (erule wf_board_cells) (simp add: all_cells_def board_get_def)

lemma valid_action_cell:
  assumes "get_valid_actions s = Inr acts" "a \<in> set acts"
  obtains i j where "a = (int i, int j)" "i < 3" "j < 3" "i < length (board s)"
    "j < length (board s ! i)" "board s ! i ! j = 0"
proof -
  obtain ax ay where a: "a = (ax, ay)" by (cases a)
  from assms a obtain i j where ij: "(i, j) \<in> set all_cells" "ax = int i" "ay = int j"
    "i < length (board s)" "j < length (board s ! i)" "board s ! i ! j = 0"
    unfolding get_valid_actions_def using scan_cells_members by blast
  from ij(1) have "i < 3" "j < 3" by (auto simp: all_cells_def)
  with ij a show thesis using that by blast
qed

lemma apply_action_nat:
  "i < length (board s) \<Longrightarrow> j < length (board s ! i) \<Longrightarrow>
   apply_action (int i, int j) s =
     Inr \<lparr>board = (board s)[i := (board s ! i)[j := turn_value (turn s)]],
          turn = (if turn s = Turn_x then Turn_o else Turn_x)\<rparr>"
  by (simp add: apply_action_def py_index_nat)

lemma count_row_update:
  "j < length r \<Longrightarrow> r ! j = 0 \<Longrightarrow> v \<noteq> 0 \<Longrightarrow>
   Suc (length (filter (\<lambda>c. c = 0) (r[j := v]))) = length (filter (\<lambda>c. c = (0::int)) r)"
proof (induction r arbitrary: j)
  case Nil
  then show ?case by simp
next
  case (Cons c r)
  then show ?case by (cases j) auto
qed

lemma count_empty_update:
  "i < length b \<Longrightarrow> j < length (b ! i) \<Longrightarrow> b ! i ! j = 0 \<Longrightarrow> v \<noteq> 0 \<Longrightarrow>
   Suc (count_empty (b[i := (b ! i)[j := v]])) = count_empty b"
proof (induction b arbitrary: i)
  case Nil
  then show ?case by simp
next
  case (Cons r b)
  show ?case
  proof (cases i)
    case 0
    with Cons.prems show ?thesis
      using count_row_update[of j r v] by (simp add: count_empty_def)
  next
    case (Suc k)
    with Cons.prems Cons.IH[of k] show ?thesis
      by (simp add: count_empty_def)
  qed
qed

lemma wf_board_update:
  assumes "wf_board b"
  shows "wf_board (b[i := (b ! i)[j := v]])"
proof (cases "i < length b")
  case True
  with assms have "length (b ! i) = 3" by (simp add: wf_board_def list_all_iff)
  with assms show ?thesis
    by (auto simp: wf_board_def list_all_iff dest!: subsetD[OF set_update_subset_insert])
next
  case False
  with assms show ?thesis by (simp add: list_update_beyond)
qed

lemma count_empty_le9: "wf_board b \<Longrightarrow> count_empty b \<le> 9"
proof (erule wf_board_cells)
  fix c00 c01 c02 c10 c11 c12 c20 c21 c22 :: int
  assume "b = [[c00, c01, c02], [c10, c11, c12], [c20, c21, c22]]"
  then show "count_empty b \<le> 9" by (simp add: count_empty_def)
qed

lemma zip_star_3x3:
  "zip_star [[a, b, c], [d, e, f], [g, h, i]] = [[a, d, g], [b, e, h], [c, f, i]]"
  by (simp add: zip_star_def min_len_def upt_rec[of 0] upt_rec[of 1] upt_rec[of 2] upt_rec[of 3] numeral_3_eq_3)

lemma win_lines_3x3:
  "win_lines [[a, b, c], [d, e, f], [g, h, i]] =
     Inr [[a, b, c], [d, e, f], [g, h, i], [a, d, g], [b, e, h], [c, f, i], [a, e, i], [c, e, g]]"
  by (simp add: win_lines_def board_get_def zip_star_3x3)

lemma replicate_3: "replicate 3 v = [v, v, v]"
  by (simp add: numeral_3_eq_3)

lemma check_win_wf: "wf_board (board s) \<Longrightarrow> \<exists>w. check_win_conditions s = Inr w"
  by (erule wf_board_cells) (simp add: check_win_conditions_def win_lines_3x3)

subsection \<open>Claims about the game state model\<close>

text \<open>
  C1 (the scenario of the specification, evaluated on the code). On the board
  \<open>[[1,1,0],[0,2,0],[0,0,2]]\<close> with x to move, \<open>get_valid_actions\<close> lists \<open>(0, 2)\<close> and
  \<open>apply_action\<close> completes the top row for x; but \<open>apply_action\<close> has flipped the turn to o,
  so \<open>check_win_conditions\<close> looks for \<open>[2, 2, 2]\<close> and returns None: x's completed row is
  not reported.
\<close>

theorem C1_completed_row_not_reported:
  "get_valid_actions \<lparr>board = [[1, 1, 0], [0, 2, 0], [0, 0, 2]], turn = Turn_x\<rparr>
     = Inr [(0, 2), (1, 0), (1, 2), (2, 0), (2, 1)]
   \<and> apply_action (0, 2) \<lparr>board = [[1, 1, 0], [0, 2, 0], [0, 0, 2]], turn = Turn_x\<rparr>
     = Inr \<lparr>board = [[1, 1, 1], [0, 2, 0], [0, 0, 2]], turn = Turn_o\<rparr>
   \<and> check_win_conditions \<lparr>board = [[1, 1, 1], [0, 2, 0], [0, 0, 2]], turn = Turn_o\<rparr>
     = Inr None"
  by (simp add: get_valid_actions_def all_cells_def board_get_def apply_action_def
      py_index_def check_win_conditions_def win_lines_3x3 replicate_3)

text \<open>
  C2, as the claim states it, fails: a move onto an occupied cell is not rejected. Here o
  moves onto the cell \<open>(0, 0)\<close> that x holds; \<open>apply_action\<close> raises nothing and returns the
  board with x's mark overwritten by o's.
\<close>

theorem C2_occupied_cell_overwritten:
  "apply_action (0, 0) \<lparr>board = [[1, 0, 0], [0, 0, 0], [0, 0, 0]], turn = Turn_o\<rparr>
     = Inr \<lparr>board = [[2, 0, 0], [0, 0, 0], [0, 0, 0]], turn = Turn_x\<rparr>
   \<and> \<not> (\<exists>e. apply_action (0, 0) \<lparr>board = [[1, 0, 0], [0, 0, 0], [0, 0, 0]], turn = Turn_o\<rparr>
          = Inl e)"
  by (simp add: apply_action_def py_index_def)

text \<open>
  C2, amended. \<open>apply_action\<close> makes no test of what the target cell holds. It raises
  IndexError exactly when the row index is not a valid Python index of the board (from
  minus the number of rows up to the number of rows minus one) or the column index is
  not a valid Python index of the addressed row; a negative index counts from the end.
  For every other move, the target cell empty or occupied, it returns the state whose
  addressed cell holds the mover's value, with every other cell as it was, the same
  number of rows and the turn flipped. Occupied cells are kept out by the callers:
  \<open>get_valid_actions\<close> lists empty cells only.
\<close>

theorem C2_apply_action_writes_unchecked:
  "(let rows = length (board s);
        row = nat (if ax < 0 then int rows + ax else ax);
        cols = length (board s ! row);
        col = nat (if ay < 0 then int cols + ay else ay)
    in apply_action (ax, ay) s =
         (if - int rows \<le> ax \<and> ax < int rows \<and> - int cols \<le> ay \<and> ay < int cols
          then Inr \<lparr>board = (board s)[row := (board s ! row)[col := turn_value (turn s)]],
                    turn = (if turn s = Turn_x then Turn_o else Turn_x)\<rparr>
          else Inl IndexError))
   \<and> (\<forall>s'. apply_action (ax, ay) s = Inr s' \<longrightarrow>
          turn s' \<noteq> turn s \<and> length (board s') = length (board s)
          \<and> (\<exists>i j. i < length (board s) \<and> j < length (board s ! i)
                \<and> board s' ! i ! j = turn_value (turn s)
                \<and> (\<forall>k l. (k, l) \<noteq> (i, j) \<longrightarrow> board s' ! k ! l = board s ! k ! l)))
   \<and> (\<forall>acts x y. get_valid_actions s = Inr acts \<longrightarrow> (x, y) \<in> set acts \<longrightarrow>
          0 \<le> x \<and> 0 \<le> y \<and> nat x < length (board s) \<and> nat y < length (board s ! nat x)
          \<and> board s ! nat x ! nat y = 0)"
proof -
  define rows where "rows = length (board s)"
  define row where "row = nat (if ax < 0 then int rows + ax else ax)"
  define cols where "cols = length (board s ! row)"
  define col where "col = nat (if ay < 0 then int cols + ay else ay)"
  let ?s' = "\<lparr>board = (board s)[row := (board s ! row)[col := turn_value (turn s)]],
              turn = (if turn s = Turn_x then Turn_o else Turn_x)\<rparr>"
  have ri: "py_index rows ax = (if - int rows \<le> ax \<and> ax < int rows then Inr row else Inl IndexError)"
    by (auto simp: py_index_def row_def)
  have ci: "py_index cols ay = (if - int cols \<le> ay \<and> ay < int cols then Inr col else Inl IndexError)"
    by (auto simp: py_index_def col_def)
  have eq: "apply_action (ax, ay) s =
         (if - int rows \<le> ax \<and> ax < int rows \<and> - int cols \<le> ay \<and> ay < int cols
          then Inr ?s' else Inl IndexError)"
    using ri ci by (simp add: apply_action_def rows_def[symmetric] cols_def[symmetric])
  have fr: "turn s' \<noteq> turn s \<and> length (board s') = length (board s)
          \<and> (\<exists>i j. i < length (board s) \<and> j < length (board s ! i)
                \<and> board s' ! i ! j = turn_value (turn s)
                \<and> (\<forall>k l. (k, l) \<noteq> (i, j) \<longrightarrow> board s' ! k ! l = board s ! k ! l))"
    if "apply_action (ax, ay) s = Inr s'" for s'
  proof -
    from that eq have ok: "- int rows \<le> ax" "ax < int rows" "- int cols \<le> ay" "ay < int cols"
      and s': "s' = ?s'"
      by (auto split: if_splits)
    from ok(1,2) have r: "row < length (board s)" by (auto simp: row_def rows_def)
    from ok(3,4) have c: "col < length (board s ! row)" by (auto simp: col_def cols_def)
    have 1: "turn s' \<noteq> turn s" unfolding s' by (cases "turn s") simp_all
    have 2: "board s' ! row ! col = turn_value (turn s)" unfolding s' using r c by simp
    have 3: "board s' ! k ! l = board s ! k ! l" if "(k, l) \<noteq> (row, col)" for k l
      unfolding s' using that r c by (cases "k = row") (auto simp: nth_list_update)
    have 4: "length (board s') = length (board s)" unfolding s' by simp
    from 2 3 r c have "\<exists>i j. i < length (board s) \<and> j < length (board s ! i)
                \<and> board s' ! i ! j = turn_value (turn s)
                \<and> (\<forall>k l. (k, l) \<noteq> (i, j) \<longrightarrow> board s' ! k ! l = board s ! k ! l)"
      by blast
    with 1 4 show ?thesis by blast
  qed
  have va: "0 \<le> x \<and> 0 \<le> y \<and> nat x < length (board s) \<and> nat y < length (board s ! nat x)
          \<and> board s ! nat x ! nat y = 0"
    if "get_valid_actions s = Inr acts" "(x, y) \<in> set acts" for acts x y
  proof -
    from that obtain i j where "(x, y) = (int i, int j)" "i < length (board s)"
      "j < length (board s ! i)" "board s ! i ! j = 0"
      by (rule valid_action_cell)
    then show ?thesis by auto
  qed
  from eq fr va show ?thesis
    unfolding Let_def rows_def row_def cols_def col_def by blast
qed

theorem C2_apply_action_writes_unchecked_witness:
  "apply_action (0, 0) \<lparr>board = [[1, 0, 0], [0, 0, 0], [0, 0, 0]], turn = Turn_o\<rparr>
     = Inr \<lparr>board = [[2, 0, 0], [0, 0, 0], [0, 0, 0]], turn = Turn_x\<rparr>
   \<and> apply_action (-3, -3) \<lparr>board = [[1, 0, 0], [0, 0, 0], [0, 0, 0]], turn = Turn_o\<rparr>
     = Inr \<lparr>board = [[2, 0, 0], [0, 0, 0], [0, 0, 0]], turn = Turn_x\<rparr>
   \<and> apply_action (0, 3) \<lparr>board = [[1, 0, 0], [0, 0, 0], [0, 0, 0]], turn = Turn_o\<rparr>
     = Inl IndexError
   \<and> apply_action (-4, 0) \<lparr>board = [[1, 0, 0], [0, 0, 0], [0, 0, 0]], turn = Turn_o\<rparr>
     = Inl IndexError
   \<and> get_valid_actions \<lparr>board = [[1, 0, 0], [0, 0, 0], [0, 0, 0]], turn = Turn_o\<rparr>
     = Inr [(0, 1), (0, 2), (1, 0), (1, 1), (1, 2), (2, 0), (2, 1), (2, 2)]
   \<and> board \<lparr>board = [[1, 0, 0], [0, 0, 0], [0, 0, 0]], turn = Turn_o\<rparr> ! nat 0 ! nat 1 = 0"
proof -
  let ?s = "\<lparr>board = [[1, 0, 0], [0, 0, 0], [0, 0, 0]], turn = Turn_o\<rparr>"
  have g: "get_valid_actions ?s
     = Inr [(0, 1), (0, 2), (1, 0), (1, 1), (1, 2), (2, 0), (2, 1), (2, 2)]"
    by (simp add: get_valid_actions_def all_cells_def board_get_def)
  from C2_apply_action_writes_unchecked[of ?s 0 0]
  have 1: "apply_action (0, 0) ?s
     = Inr \<lparr>board = [[2, 0, 0], [0, 0, 0], [0, 0, 0]], turn = Turn_x\<rparr>"
    by (simp add: Let_def)
  from C2_apply_action_writes_unchecked[of ?s "-3" "-3"]
  have 2: "apply_action (-3, -3) ?s
     = Inr \<lparr>board = [[2, 0, 0], [0, 0, 0], [0, 0, 0]], turn = Turn_x\<rparr>"
    by (simp add: Let_def)
  from C2_apply_action_writes_unchecked[of ?s 0 3]
  have 3: "apply_action (0, 3) ?s = Inl IndexError"
    by (simp add: Let_def)
  from C2_apply_action_writes_unchecked[of ?s "-4" 0]
  have 4: "apply_action (-4, 0) ?s = Inl IndexError"
    by (simp add: Let_def)
  from C2_apply_action_writes_unchecked[of ?s 0 0] g
  have 5: "board ?s ! nat 0 ! nat 1 = 0"
    by simp
  from 1 2 3 4 5 g show ?thesis by blast
qed

text \<open>
  C10. Whatever \<open>check_win_conditions\<close> returns is None or the side to move of the state it
  is given. \<open>apply_action\<close> flips the turn, so on the state it has just produced the mover
  is never the reported winner, whatever line the move completed.
\<close>

theorem C10_winner_is_side_to_move:
  "(check_win_conditions s = Inr w \<longrightarrow> w = None \<or> w = Some (turn s))
   \<and> (apply_action a s = Inr s' \<longrightarrow>
        turn s' \<noteq> turn s \<and> check_win_conditions s' \<noteq> Inr (Some (turn s)))"
proof (intro conjI impI)
  assume "check_win_conditions s = Inr w"
  then show "w = None \<or> w = Some (turn s)"
    by (auto simp: check_win_conditions_def split: sum.splits if_splits)
next
  assume ap: "apply_action a s = Inr s'"
  then show t: "turn s' \<noteq> turn s"
    by (cases "turn s") (auto simp: apply_action_def split: prod.splits sum.splits)
  show "check_win_conditions s' \<noteq> Inr (Some (turn s))"
  proof
    assume "check_win_conditions s' = Inr (Some (turn s))"
    then have "turn s = turn s'"
      by (auto simp: check_win_conditions_def split: sum.splits if_splits)
    with t show False by simp
  qed
qed

theorem C10_winner_is_side_to_move_witness:
  "check_win_conditions \<lparr>board = [[2, 1, 1], [2, 1, 0], [0, 0, 0]], turn = Turn_o\<rparr> = Inr None
   \<and> apply_action (2, 0) \<lparr>board = [[2, 1, 1], [2, 1, 0], [0, 0, 0]], turn = Turn_o\<rparr>
       = Inr \<lparr>board = [[2, 1, 1], [2, 1, 0], [2, 0, 0]], turn = Turn_x\<rparr>
   \<and> turn \<lparr>board = [[2, 1, 1], [2, 1, 0], [2, 0, 0]], turn = Turn_x\<rparr> \<noteq> Turn_o
   \<and> check_win_conditions \<lparr>board = [[2, 1, 1], [2, 1, 0], [2, 0, 0]], turn = Turn_x\<rparr>
       \<noteq> Inr (Some Turn_o)"
  using C10_winner_is_side_to_move
    [of "\<lparr>board = [[2, 1, 1], [2, 1, 0], [0, 0, 0]], turn = Turn_o\<rparr>" None "(2, 0)"
        "\<lparr>board = [[2, 1, 1], [2, 1, 0], [2, 0, 0]], turn = Turn_x\<rparr>"]
  by (simp add: apply_action_def py_index_def check_win_conditions_def win_lines_3x3 replicate_3)

section \<open>Random choices and the playout loop (src/main.py, lines 92-102)\<close>

text \<open>
  The state of Python's global random generator is an infinite stream of naturals, here a
  function from positions to naturals. \<open>random.choice(seq)\<close> raises IndexError on an empty
  sequence; otherwise it returns the element the head of the stream selects and leaves the
  tail of the stream. Every result \<open>random.choice\<close> can give is given by some stream, so a
  statement for all streams covers every run.
\<close>

type_synonym rng = "nat \<Rightarrow> nat"

definition random_choice :: "rng \<Rightarrow> 'a list \<Rightarrow> error + ('a \<times> rng)" where
  "random_choice g xs =
     (if xs = [] then Inl IndexError else Inr (xs ! (g 0 mod length xs), \<lambda>n. g (Suc n)))"

lemma random_choice_member: "random_choice g xs = Inr (a, g') \<Longrightarrow> a \<in> set xs"
  by (auto simp: random_choice_def split: if_splits)

lemma random_choice_ok: "xs \<noteq> [] \<Longrightarrow> \<exists>a g'. random_choice g xs = Inr (a, g') \<and> a \<in> set xs"
  by (simp add: random_choice_def)

lemma apply_valid_action:
  assumes "get_valid_actions s = Inr acts" and "a \<in> set acts"
  shows "\<exists>s'. apply_action a s = Inr s'
           \<and> Suc (count_empty (board s')) = count_empty (board s)
           \<and> (wf_board (board s) \<longrightarrow> wf_board (board s'))
           \<and> turn s' \<noteq> turn s"
proof -
  from assms obtain i j where a: "a = (int i, int j)" and r: "i < length (board s)"
    "j < length (board s ! i)" and z: "board s ! i ! j = 0"
    by (rule valid_action_cell)
  let ?s' = "\<lparr>board = (board s)[i := (board s ! i)[j := turn_value (turn s)]],
              turn = (if turn s = Turn_x then Turn_o else Turn_x)\<rparr>"
  have "apply_action a s = Inr ?s'"
    unfolding a using r by (rule apply_action_nat)
  moreover have "Suc (count_empty (board ?s')) = count_empty (board s)"
    using count_empty_update[OF r z turn_value_nonzero] by simp
  moreover have "wf_board (board s) \<longrightarrow> wf_board (board ?s')"
    by (simp add: wf_board_update)
  moreover have "turn ?s' \<noteq> turn s"
    by (cases "turn s") simp_all
  ultimately show ?thesis by blast
qed

text \<open>
  The \<open>while True\<close> loop of \<open>random_rollout\<close>: the winner of the state where the loop
  breaks, and the generator state after it. The source calls \<open>get_valid_actions(state)\<close>
  twice per pass (in the test and in the choice); the function has no effect, so it is
  read once here. The second component of the result counts the moves the loop applied;
  the source does not compute it, and nothing but the bound on the playout's length reads
  it.
\<close>

function playout :: "rng \<Rightarrow> State \<Rightarrow> error + (Turn option \<times> nat \<times> rng)" where
  "playout g s =
     (case check_win_conditions s of
        Inl e \<Rightarrow> Inl e
      | Inr winner \<Rightarrow>
          if winner \<noteq> None then Inr (winner, 0, g)
          else
            (case get_valid_actions s of
               Inl e \<Rightarrow> Inl e
             | Inr acts \<Rightarrow>
                 if acts = [] then Inr (None, 0, g)
                 else
                   (case random_choice g acts of
                      Inl e \<Rightarrow> Inl e
                    | Inr (action, g') \<Rightarrow>
                        (case apply_action action s of
                           Inl e \<Rightarrow> Inl e
                         | Inr s' \<Rightarrow>
                             (case playout g' s' of
                                Inl e \<Rightarrow> Inl e
                              | Inr (w, n, g'') \<Rightarrow> Inr (w, Suc n, g''))))))"
  by pat_completeness auto
termination
proof (relation "measure (\<lambda>(g, s). count_empty (board s))")
  show "wf (measure (\<lambda>(g, s). count_empty (board s)))" by simp
next
  fix g :: rng and s winner acts p action g' s'
  assume "get_valid_actions s = Inr acts" and "random_choice g acts = Inr p"
    and "(action, g') = p" and "apply_action action s = Inr s'"
  then show "((g', s'), (g, s)) \<in> measure (\<lambda>(g, s). count_empty (board s))"
    using apply_valid_action[of s acts action] random_choice_member[of g acts action g']
    by auto
qed

declare playout.simps [simp del]

section \<open>The search tree (src/main.py, lines 16-26, 43-51)\<close>

text \<open>
  Nodes are Python objects that refer to each other (\<open>parent\<close> upwards, \<open>children\<close>
  downwards) and are updated in place, so the tree is a store: a list of nodes, a node's
  address being its position. A reference is an address; Python has no dangling
  reference, so the addresses a run meets are below the length of the store. A new object
  is appended at the end. \<open>SearchTree\<close> is the one-field wrapper of the root's reference;
  the functions below take that address.

  \<open>wins\<close> starts as the int 0 and receives 1, 0 or 0.5, so it is a Python int or float.
  Here it is a real number and the additions are exact. Python's addition is the same
  as long as the value is a multiple of 1/2 from 0 to \<open>2^52 - 1\<close> (\<open>half_points\<close> below):
  such a value and its sum with 0, 0.5 or 1 are doubles, so nothing is rounded. Beyond
  that range a float sum rounds, and the model does not follow it; what is proved about
  the value of \<open>wins\<close> assumes the range.
\<close>

type_synonym addr = nat

record Node =
  parent :: "addr option"
  state :: State
  simulations :: int
  wins :: real
  children :: "addr list option"

definition half_points :: "real \<Rightarrow> bool" where
  "half_points x = (2 * x \<in> \<int> \<and> 0 \<le> x \<and> x + 1 \<le> 2 ^ 52)"

text \<open>
  What \<open>mcts\<close> reads and updates: the store, the random generator, and a log of the calls
  of \<open>expand\<close>. The log has no counterpart in the source: \<open>expand\<close> appends to it the
  node it was called on and the \<open>children\<close> field that node had at the call, so that a
  statement about every call of \<open>expand\<close> in a run can be written.
\<close>

record world =
  heap :: "Node list"
  rand :: rng
  expand_log :: "(addr \<times> addr list option) list"

text \<open>
  The truth value Python gives \<open>node.children\<close>: None and the empty list are false.
  \<open>kids\<close> is the list read where the source iterates over \<open>node.children\<close> after that test.
\<close>

definition truthy :: "'a list option \<Rightarrow> bool" where
  "truthy cs = (case cs of None \<Rightarrow> False | Some [] \<Rightarrow> False | Some (c # r) \<Rightarrow> True)"

definition kids :: "Node \<Rightarrow> addr list" where
  "kids n = (case children n of None \<Rightarrow> [] | Some cs \<Rightarrow> cs)"

text \<open>
  \<open>expand\<close>: one new node per valid action, with the state \<open>apply_action\<close> gives, no
  statistics and \<open>parent = node\<close>; \<open>node.children\<close> is replaced by the list of the new
  nodes, whatever it held.
\<close>

definition new_child :: "addr \<Rightarrow> State \<Rightarrow> Node" where
  "new_child p s = \<lparr>parent = Some p, state = s, simulations = 0, wins = 0, children = None\<rparr>"

fun apply_all :: "(int \<times> int) list \<Rightarrow> State \<Rightarrow> error + State list" where
  "apply_all [] s = Inr []"
| "apply_all (a # as) s =
     (case apply_action a s of
        Inl e \<Rightarrow> Inl e
      | Inr s' \<Rightarrow> (case apply_all as s of Inl e \<Rightarrow> Inl e | Inr ss \<Rightarrow> Inr (s' # ss)))"

definition expand :: "addr \<Rightarrow> world \<Rightarrow> error + world" where
  "expand a w =
     (case get_valid_actions (state (heap w ! a)) of
        Inl e \<Rightarrow> Inl e
      | Inr valid_actions \<Rightarrow>
          (case apply_all valid_actions (state (heap w ! a)) of
             Inl e \<Rightarrow> Inl e
           | Inr ss \<Rightarrow>
               Inr (w\<lparr>heap := (heap w @ map (new_child a) ss)
                               [a := (heap w ! a)\<lparr>children :=
                                  Some [length (heap w)..<length (heap w) + length ss]\<rparr>],
                      expand_log := expand_log w @ [(a, children (heap w ! a))]\<rparr>)))"

section \<open>Selection (src/main.py, lines 64-70)\<close>

text \<open>
  The key of \<open>select_child\<close>. Python reads the lambda's body as
  \<open>(win_rate + c * sqrt(log(n) / child.simulations)) if child.simulations else inf\<close>: the
  conditional expression binds weakest. So a child with \<open>simulations = 0\<close> gets
  \<open>float('inf')\<close> and nothing else is evaluated. Otherwise \<open>math.log\<close> raises ValueError on
  an argument that is not positive and \<open>math.sqrt\<close> on a negative one; the division is by
  \<open>child.simulations\<close>, which is not zero there.

  The value of the key is the exact real number of the formula. Python computes it in
  IEEE doubles, rounding at the division, the logarithm, the square roots, the product
  and the sum, so two keys can be equal as doubles when the exact values differ, and the
  child with the greatest exact value need not be the child Python's \<open>max\<close> returns.
  Nothing below that depends on which child has the greatest key is a statement about
  the doubles. The tests that decide whether an exception is raised are on the integer
  counts and do not depend on rounding. Python raises OverflowError when a count of
  \<open>2^1024\<close> or more is converted to a float; that exception is not part of the model,
  which follows the code for counts below this bound.
\<close>

datatype score = Score real | Infinity

fun score_less :: "score \<Rightarrow> score \<Rightarrow> bool" where
  "score_less (Score u) (Score v) = (u < v)"
| "score_less (Score u) Infinity = True"
| "score_less Infinity v = False"

definition ucb_key :: "Node \<Rightarrow> Node \<Rightarrow> error + score" where
  "ucb_key node child =
     (if simulations child \<noteq> 0 then
        (if simulations node \<le> 0 then Inl ValueError
         else if ln (real_of_int (simulations node)) / real_of_int (simulations child) < 0
           then Inl ValueError
         else Inr (Score (wins child / real_of_int (simulations child)
                + sqrt 100 * sqrt (ln (real_of_int (simulations node))
                                     / real_of_int (simulations child)))))
      else Inr Infinity)"

text \<open>
  \<open>max(iterable, key=f)\<close>: ValueError on an empty sequence; the keys are computed in
  order, and the item kept changes only when a key is strictly greater than the greatest
  so far, so the first of several greatest items is returned.
\<close>

fun max_loop :: "('a \<Rightarrow> error + score) \<Rightarrow> 'a \<Rightarrow> score \<Rightarrow> 'a list \<Rightarrow> error + 'a" where
  "max_loop key best bk [] = Inr best"
| "max_loop key best bk (c # cs) =
     (case key c of
        Inl e \<Rightarrow> Inl e
      | Inr k \<Rightarrow> if score_less bk k then max_loop key c k cs else max_loop key best bk cs)"

definition py_max :: "('a \<Rightarrow> error + score) \<Rightarrow> 'a list \<Rightarrow> error + 'a" where
  "py_max key xs =
     (case xs of
        [] \<Rightarrow> Inl ValueError
      | c # cs \<Rightarrow> (case key c of Inl e \<Rightarrow> Inl e | Inr k \<Rightarrow> max_loop key c k cs))"

definition select_child :: "Node list \<Rightarrow> addr \<Rightarrow> error + addr" where
  "select_child h a =
     (case children (h ! a) of
        None \<Rightarrow> Inl TypeError
      | Some cs \<Rightarrow> py_max (\<lambda>c. ucb_key (h ! a) (h ! c)) cs)"

section \<open>The search loop (src/main.py, lines 72-107)\<close>

text \<open>
  One pass of the descent loop's body (lines 80-84): the next \<open>curr_node\<close>, and whether
  the loop goes on (False after \<open>break\<close>). \<open>next\<close> on an exhausted generator raises
  StopIteration.
\<close>

definition descend_step :: "Node list \<Rightarrow> addr \<Rightarrow> error + (addr \<times> bool)" where
  "descend_step h curr_node =
     (if list_all (\<lambda>c. 0 < simulations (h ! c)) (kids (h ! curr_node)) then
        (case select_child h curr_node of
           Inl e \<Rightarrow> Inl e
         | Inr c \<Rightarrow> Inr (c, True))
      else
        (case find (\<lambda>c. simulations (h ! c) = 0) (kids (h ! curr_node)) of
           None \<Rightarrow> Inl StopIteration
         | Some c \<Rightarrow> Inr (c, False)))"

text \<open>
  The descent loop \<open>while curr_node.children: ...\<close>. It follows references, so on a store
  with a cycle it need not return: the result is None then.
\<close>

partial_function (option) descend :: "Node list \<Rightarrow> addr \<Rightarrow> (error + addr) option" where
  "descend h curr_node =
     (if truthy (children (h ! curr_node)) then
        (case descend_step h curr_node of
           Inl e \<Rightarrow> Some (Inl e)
         | Inr (c, continue) \<Rightarrow> if continue then descend h c else Some (Inr c))
      else Some (Inr curr_node))"

text \<open>
  The loop \<open>while node: node.simulations += 1; node.wins += result; node = node.parent\<close>.
  A \<open>Node\<close> object is always true, so the loop ends at the first \<open>parent\<close> that is None;
  on a store whose parent references form a cycle it does not return.
\<close>

partial_function (option) backprop :: "Node list \<Rightarrow> addr option \<Rightarrow> real \<Rightarrow> Node list option" where
  "backprop h node r =
     (case node of
        None \<Rightarrow> Some h
      | Some a \<Rightarrow>
          backprop (h[a := (h ! a)\<lparr>simulations := simulations (h ! a) + 1,
                                   wins := wins (h ! a) + r\<rparr>])
            (parent (h ! a)) r)"

text \<open>\<open>result = 1 if winner == initial_turn else 0 if winner else 0.5\<close>.\<close>

definition rollout_result :: "Turn option \<Rightarrow> Turn \<Rightarrow> real" where
  "rollout_result winner initial_turn =
     (if winner = Some initial_turn then 1 else if winner \<noteq> None then 0 else 1 / 2)"

text \<open>\<open>random_rollout\<close>: the playout from the node's state, then the walk up the parents.\<close>

definition random_rollout :: "addr \<Rightarrow> world \<Rightarrow> (error + world) option" where
  "random_rollout a w =
     (case playout (rand w) (state (heap w ! a)) of
        Inl e \<Rightarrow> Some (Inl e)
      | Inr (winner, n, g) \<Rightarrow>
          (case backprop (heap w) (Some a)
                  (rollout_result winner (turn (state (heap w ! a)))) of
             None \<Rightarrow> None
           | Some h' \<Rightarrow> Some (Inr (w\<lparr>heap := h', rand := g\<rparr>))))"

text \<open>
  Lines 86-88 of \<open>mcts\<close>: a node that has been simulated before is expanded, and the
  rollout starts from a random child of it when it has any.
\<close>

definition expand_and_pick :: "addr \<Rightarrow> world \<Rightarrow> error + (addr \<times> world)" where
  "expand_and_pick curr_node w =
     (if 0 < simulations (heap w ! curr_node) then
        (case expand curr_node w of
           Inl e \<Rightarrow> Inl e
         | Inr w' \<Rightarrow>
             if truthy (children (heap w' ! curr_node)) then
               (case random_choice (rand w') (kids (heap w' ! curr_node)) of
                  Inl e \<Rightarrow> Inl e
                | Inr (c, g) \<Rightarrow> Inr (c, w'\<lparr>rand := g\<rparr>))
             else Inr (curr_node, w'))
      else Inr (curr_node, w))"

text \<open>One pass of the \<open>for\<close> loop of \<open>mcts\<close> (lines 75-90), and the loop.\<close>

definition mcts_step :: "addr \<Rightarrow> world \<Rightarrow> (error + world) option" where
  "mcts_step rt w =
     (case (if \<not> truthy (children (heap w ! rt)) then expand rt w else Inr w) of
        Inl e \<Rightarrow> Some (Inl e)
      | Inr w1 \<Rightarrow>
          (case descend (heap w1) rt of
             None \<Rightarrow> None
           | Some (Inl e) \<Rightarrow> Some (Inl e)
           | Some (Inr curr_node) \<Rightarrow>
               (case expand_and_pick curr_node w1 of
                  Inl e \<Rightarrow> Some (Inl e)
                | Inr (node, w2) \<Rightarrow> random_rollout node w2)))"

primrec mcts :: "addr \<Rightarrow> nat \<Rightarrow> world \<Rightarrow> (error + world) option" where
  "mcts rt 0 w = Some (Inr w)"
| "mcts rt (Suc n) w =
     (case mcts_step rt w of
        None \<Rightarrow> None
      | Some (Inl e) \<Rightarrow> Some (Inl e)
      | Some (Inr w') \<Rightarrow> mcts rt n w')"

section \<open>Advancing the root (src/main.py, lines 152-162)\<close>

text \<open>
  The part of \<open>play_game\<close> that moves the tree's root after a move: the new current state,
  the new root and the store. The first child whose board equals the new board becomes
  the root, its \<open>parent\<close> set to None; with no such child, or no child at all, the root is
  a new node.
\<close>

definition fresh_root :: "State \<Rightarrow> Node" where
  "fresh_root s = \<lparr>parent = None, state = s, simulations = 0, wins = 0, children = None\<rparr>"

definition advance :: "int \<times> int \<Rightarrow> State \<Rightarrow> addr \<Rightarrow> Node list \<Rightarrow> error + (State \<times> addr \<times> Node list)" where
  "advance action current_state rt h =
     (case apply_action action current_state of
        Inl e \<Rightarrow> Inl e
      | Inr s' \<Rightarrow>
          if truthy (children (h ! rt)) then
            (case find (\<lambda>c. board (state (h ! c)) = board s') (kids (h ! rt)) of
               None \<Rightarrow> Inr (s', length h, h @ [fresh_root s'])
             | Some c \<Rightarrow> Inr (s', c, h[c := (h ! c)\<lparr>parent := None\<rparr>]))
          else Inr (s', length h, h @ [fresh_root s']))"


section \<open>Backpropagation\<close>

text \<open>
  \<open>chain h node as\<close>: \<open>as\<close> lists the nodes from \<open>node\<close> upwards along the \<open>parent\<close>
  references, until the node whose parent is None. \<open>bump r n\<close> is the node \<open>n\<close> after one
  pass of the loop.
\<close>

inductive chain :: "Node list \<Rightarrow> addr option \<Rightarrow> addr list \<Rightarrow> bool" where
  chain_None: "chain h None []"
| chain_Some: "a < length h \<Longrightarrow> chain h (parent (h ! a)) as \<Longrightarrow> chain h (Some a) (a # as)"

definition bump :: "real \<Rightarrow> Node \<Rightarrow> Node" where
  "bump r n = n\<lparr>simulations := simulations n + 1, wins := wins n + r\<rparr>"

inductive_cases chain_NoneE: "chain h None as"
inductive_cases chain_SomeE: "chain h (Some a) as"

lemma chain_unique: "chain h n as \<Longrightarrow> chain h n bs \<Longrightarrow> as = bs"
proof (induction arbitrary: bs rule: chain.induct)
  case (chain_None h)
  then show ?case by (auto elim: chain_NoneE)
next
  case (chain_Some a h as)
  from chain_Some.prems obtain bs' where "bs = a # bs'" "chain h (parent (h ! a)) bs'"
    by (auto elim: chain_SomeE)
  with chain_Some.IH show ?case by simp
qed

lemma chain_suffix:
  "chain h n as \<Longrightarrow> b \<in> set as \<Longrightarrow> \<exists>pre bs. chain h (Some b) (b # bs) \<and> as = pre @ b # bs"
proof (induction rule: chain.induct)
  case (chain_None h)
  then show ?case by simp
next
  case (chain_Some a h as)
  show ?case
  proof (cases "b = a")
    case True
    have "chain h (Some a) (a # as)"
      using chain_Some.hyps by (rule chain.chain_Some)
    with True show ?thesis by (intro exI[of _ "[]"] exI[of _ as]) simp
  next
    case False
    with chain_Some.prems have "b \<in> set as" by simp
    with chain_Some.IH obtain pre bs where "chain h (Some b) (b # bs)" "as = pre @ b # bs"
      by blast
    then show ?thesis by (intro exI[of _ "a # pre"] exI[of _ bs]) simp
  qed
qed

lemma chain_distinct: "chain h n as \<Longrightarrow> distinct as"
proof (induction rule: chain.induct)
  case (chain_None h)
  then show ?case by simp
next
  case (chain_Some a h as)
  have "a \<notin> set as"
  proof
    assume "a \<in> set as"
    with chain_Some.hyps(2) obtain pre bs where c: "chain h (Some a) (a # bs)"
      and e: "as = pre @ a # bs"
      using chain_suffix by blast
    have "chain h (Some a) (a # as)"
      using chain_Some.hyps by (rule chain.chain_Some)
    with c have "a # bs = a # as" by (rule chain_unique)
    with e show False by simp
  qed
  with chain_Some.IH show ?case by simp
qed

lemma chain_valid: "chain h n as \<Longrightarrow> b \<in> set as \<Longrightarrow> b < length h"
  by (induction rule: chain.induct) auto

lemma chain_parent_closed:
  "chain h n as \<Longrightarrow> b \<in> set as \<Longrightarrow> parent (h ! b) = Some p \<Longrightarrow> p \<in> set as"
proof (induction rule: chain.induct)
  case (chain_None h)
  then show ?case by simp
next
  case (chain_Some a h as)
  show ?case
  proof (cases "b = a")
    case True
    with chain_Some.hyps(2) chain_Some.prems(2) have "chain h (Some p) as" by simp
    then have "p \<in> set as" by (auto elim: chain_SomeE)
    then show ?thesis by simp
  next
    case False
    with chain_Some show ?thesis by simp
  qed
qed

lemma chain_last_root:
  "chain h (Some a) as \<Longrightarrow> as \<noteq> [] \<and> hd as = a \<and> parent (h ! last as) = None"
proof -
  have "chain h n as \<Longrightarrow> n \<noteq> None \<Longrightarrow> as \<noteq> [] \<and> Some (hd as) = n \<and> parent (h ! last as) = None"
    for n
  proof (induction rule: chain.induct)
    case (chain_None h)
    then show ?case by simp
  next
    case (chain_Some a h as)
    show ?case
    proof (cases "parent (h ! a)")
      case None
      with chain_Some.hyps(2) have "as = []" by (auto elim: chain_NoneE)
      with None show ?thesis by simp
    next
      case (Some p)
      with chain_Some.IH have "as \<noteq> [] \<and> parent (h ! last as) = None" by simp
      then show ?thesis by simp
    qed
  qed
  then show "chain h (Some a) as \<Longrightarrow> as \<noteq> [] \<and> hd as = a \<and> parent (h ! last as) = None"
    by fastforce
qed

lemma chain_same_parents:
  "chain h n as \<Longrightarrow> length h' = length h \<Longrightarrow> \<forall>a<length h. parent (h' ! a) = parent (h ! a) \<Longrightarrow>
   chain h' n as"
proof (induction rule: chain.induct)
  case (chain_None h)
  then show ?case by (simp add: chain.chain_None)
next
  case (chain_Some a h as)
  then have "chain h' (parent (h' ! a)) as" by simp
  with chain_Some.hyps(1) chain_Some.prems(1) show ?case
    by (simp add: chain.chain_Some)
qed

lemma bump_fields [simp]:
  "parent (bump r n) = parent n" "state (bump r n) = state n" "children (bump r n) = children n"
  "simulations (bump r n) = simulations n + 1" "wins (bump r n) = wins n + r"
  by (simp_all add: bump_def)

lemma backprop_chain:
  "chain h n as \<Longrightarrow>
   \<exists>h'. backprop h n r = Some h' \<and> length h' = length h
     \<and> (\<forall>b<length h. h' ! b = (if b \<in> set as then bump r (h ! b) else h ! b))"
proof (induction as arbitrary: h n)
  case Nil
  then have "n = None" by (auto elim: chain.cases)
  then show ?case by (simp add: backprop.simps)
next
  case (Cons a as)
  from Cons.prems have n: "n = Some a" and a: "a < length h"
    and rest: "chain h (parent (h ! a)) as"
    by (auto elim: chain.cases)
  from Cons.prems have "distinct (a # as)" by (rule chain_distinct)
  then have notin: "a \<notin> set as" by simp
  let ?h1 = "h[a := bump r (h ! a)]"
  have "chain ?h1 (parent (h ! a)) as"
    using rest by (rule chain_same_parents) (use a in \<open>auto simp: nth_list_update\<close>)
  from Cons.IH[OF this] obtain h' where h': "backprop ?h1 (parent (h ! a)) r = Some h'"
    "length h' = length h"
    "\<forall>b<length h. h' ! b = (if b \<in> set as then bump r (?h1 ! b) else ?h1 ! b)"
    by auto
  have "backprop h n r = Some h'"
    unfolding n using h'(1) by (subst backprop.simps) (simp add: bump_def)
  moreover have "\<forall>b<length h. h' ! b = (if b \<in> set (a # as) then bump r (h ! b) else h ! b)"
    using h'(3) notin a by (auto simp: nth_list_update)
  ultimately show ?case using h'(2) by blast
qed

lemma rollout_result_values: "rollout_result winner t \<in> {1, 1 / 2, 0}"
  by (simp add: rollout_result_def)

lemma half_points_add:
  assumes "half_points x" and "r \<in> {1, 1 / 2, 0}"
  shows "2 * (x + r) \<in> \<int>" and "0 \<le> x + r" and "x + r \<le> 2 ^ 52"
proof -
  from assms(2) consider "r = 1" | "r = 1 / 2" | "r = 0" by blast
  then have "2 * r = 2 \<or> 2 * r = 1 \<or> 2 * r = 0" by cases simp_all
  then have "2 * r \<in> \<int>" by (metis Ints_0 Ints_1 Ints_numeral)
  with assms(1) have "2 * x + 2 * r \<in> \<int>" by (simp add: half_points_def)
  then show "2 * (x + r) \<in> \<int>" by (simp add: distrib_left)
  from assms show "0 \<le> x + r" by (auto simp: half_points_def)
  from assms show "x + r \<le> 2 ^ 52" by (auto simp: half_points_def)
qed

text \<open>
  C3. Let \<open>as\<close> be the chain of parent references from the rolled-out node \<open>a\<close>: it
  starts at \<open>a\<close>, ends at the node whose parent is None (the root) and repeats no node.
  Let the outcome \<open>r\<close> be 1, 0.5 or 0 and the \<open>wins\<close> of the nodes of the chain be
  multiples of 1/2 from 0 to \<open>2^52 - 1\<close>, the range where Python's float addition is the
  exact one. Then backpropagation returns, and in the store it leaves every node of the
  chain has \<open>simulations\<close> one greater and \<open>wins\<close> greater by the same \<open>r\<close>, a value that is
  again a multiple of 1/2 up to \<open>2^52\<close>, with its other fields unchanged, and every node
  off the chain is unchanged. The outcome \<open>random_rollout\<close> passes is computed once from
  the playout's winner and the side to move at the rolled-out node, and is 1, 0.5 or 0.
\<close>

theorem C3_backpropagation:
  assumes "chain h (Some a) as"
    and "r \<in> {1, 1 / 2, 0}"
    and "\<forall>b\<in>set as. half_points (wins (h ! b))"
  shows "as \<noteq> [] \<and> hd as = a \<and> parent (h ! last as) = None \<and> distinct as
    \<and> (\<exists>h'. backprop h (Some a) r = Some h' \<and> length h' = length h
          \<and> (\<forall>b<length h. h' ! b =
                (if b \<in> set as
                 then (h ! b)\<lparr>simulations := simulations (h ! b) + 1, wins := wins (h ! b) + r\<rparr>
                 else h ! b))
          \<and> (\<forall>b\<in>set as. 2 * wins (h' ! b) \<in> \<int> \<and> 0 \<le> wins (h' ! b)
                \<and> wins (h' ! b) \<le> 2 ^ 52))
    \<and> rollout_result winner (turn (state (h ! a))) \<in> {1, 1 / 2, 0}
    \<and> (\<forall>w n g. heap w = h \<longrightarrow> playout (rand w) (state (h ! a)) = Inr (winner, n, g) \<longrightarrow>
          (\<exists>h'. backprop h (Some a) (rollout_result winner (turn (state (h ! a)))) = Some h'
             \<and> random_rollout a w = Some (Inr (w\<lparr>heap := h', rand := g\<rparr>))))"
proof -
  have 1: "as \<noteq> [] \<and> hd as = a \<and> parent (h ! last as) = None"
    using assms(1) by (rule chain_last_root)
  have 2: "distinct as"
    using assms(1) by (rule chain_distinct)
  have 3: "\<exists>h'. backprop h (Some a) q = Some h' \<and> length h' = length h
          \<and> (\<forall>b<length h. h' ! b =
                (if b \<in> set as
                 then (h ! b)\<lparr>simulations := simulations (h ! b) + 1, wins := wins (h ! b) + q\<rparr>
                 else h ! b))" for q
    using backprop_chain[OF assms(1), of q] unfolding bump_def .
  from 3[of r] obtain h' where h': "backprop h (Some a) r = Some h'" "length h' = length h"
    "\<forall>b<length h. h' ! b =
                (if b \<in> set as
                 then (h ! b)\<lparr>simulations := simulations (h ! b) + 1, wins := wins (h ! b) + r\<rparr>
                 else h ! b)"
    by blast
  have "2 * wins (h' ! b) \<in> \<int> \<and> 0 \<le> wins (h' ! b) \<and> wins (h' ! b) \<le> 2 ^ 52"
    if "b \<in> set as" for b
  proof -
    from assms(1) that have "b < length h" by (rule chain_valid)
    with h'(3) that have "wins (h' ! b) = wins (h ! b) + r" by simp
    moreover from assms(3) that have "half_points (wins (h ! b))" by simp
    ultimately show ?thesis using half_points_add[OF _ assms(2)] by simp
  qed
  with h' have 5: "\<exists>h'. backprop h (Some a) r = Some h' \<and> length h' = length h
          \<and> (\<forall>b<length h. h' ! b =
                (if b \<in> set as
                 then (h ! b)\<lparr>simulations := simulations (h ! b) + 1, wins := wins (h ! b) + r\<rparr>
                 else h ! b))
          \<and> (\<forall>b\<in>set as. 2 * wins (h' ! b) \<in> \<int> \<and> 0 \<le> wins (h' ! b)
                \<and> wins (h' ! b) \<le> 2 ^ 52)"
    by blast
  have 4: "\<forall>w n g. heap w = h \<longrightarrow> playout (rand w) (state (h ! a)) = Inr (winner, n, g) \<longrightarrow>
          (\<exists>h'. backprop h (Some a) (rollout_result winner (turn (state (h ! a)))) = Some h'
             \<and> random_rollout a w = Some (Inr (w\<lparr>heap := h', rand := g\<rparr>)))"
  proof (intro allI impI)
    fix w :: world and n g
    assume w: "heap w = h" and p: "playout (rand w) (state (h ! a)) = Inr (winner, n, g)"
    from 3 obtain h' where
      "backprop h (Some a) (rollout_result winner (turn (state (h ! a)))) = Some h'"
      by blast
    with w p show "\<exists>h'. backprop h (Some a) (rollout_result winner (turn (state (h ! a)))) = Some h'
             \<and> random_rollout a w = Some (Inr (w\<lparr>heap := h', rand := g\<rparr>))"
      by (simp add: random_rollout_def)
  qed
  from 1 2 5 4 rollout_result_values show ?thesis by blast
qed

text \<open>
  A store of three nodes to evaluate the theorems on: a root with o to move and two empty
  cells, and its two children.
\<close>

definition demo_state :: State where
  "demo_state = \<lparr>board = [[1, 2, 1], [1, 2, 2], [0, 1, 0]], turn = Turn_o\<rparr>"

definition demo_heap :: "Node list" where
  "demo_heap =
     [\<lparr>parent = None, state = demo_state, simulations = 3, wins = 1, children = Some [1, 2]\<rparr>,
      \<lparr>parent = Some 0, state = \<lparr>board = [[1, 2, 1], [1, 2, 2], [2, 1, 0]], turn = Turn_x\<rparr>,
         simulations = 2, wins = 1, children = None\<rparr>,
      \<lparr>parent = Some 0, state = \<lparr>board = [[1, 2, 1], [1, 2, 2], [0, 1, 2]], turn = Turn_x\<rparr>,
         simulations = 1, wins = 0, children = None\<rparr>]"

theorem C3_backpropagation_witness:
  "chain demo_heap (Some 1) [1, 0] \<and> (1 / 2 :: real) \<in> {1, 1 / 2, 0}
   \<and> half_points (wins (demo_heap ! 1)) \<and> half_points (wins (demo_heap ! 0))
   \<and> (\<exists>h'. backprop demo_heap (Some 1) (1 / 2) = Some h'
         \<and> simulations (h' ! 1) = 3 \<and> wins (h' ! 1) = 3 / 2
         \<and> simulations (h' ! 0) = 4 \<and> wins (h' ! 0) = 3 / 2
         \<and> h' ! 2 = demo_heap ! 2)"
proof -
  have c: "chain demo_heap (Some 1) [1, 0]"
    by (rule chain.intros | simp add: demo_heap_def)+
  have r: "(1 / 2 :: real) \<in> {1, 1 / 2, 0}" by simp
  have p: "half_points (wins (demo_heap ! 1))" "half_points (wins (demo_heap ! 0))"
    by (simp_all add: demo_heap_def half_points_def)
  then have q: "\<forall>b\<in>set [1, 0]. half_points (wins (demo_heap ! b))" by simp
  from C3_backpropagation[OF c r q] obtain h' where
    b: "backprop demo_heap (Some 1) (1 / 2) = Some h'" and
    n: "\<forall>b<length demo_heap. h' ! b =
          (if b \<in> set [1, 0]
           then (demo_heap ! b)\<lparr>simulations := simulations (demo_heap ! b) + 1,
                                wins := wins (demo_heap ! b) + 1 / 2\<rparr>
           else demo_heap ! b)"
    by blast
  from n have "h' ! 0 = (demo_heap ! 0)\<lparr>simulations := simulations (demo_heap ! 0) + 1,
                                wins := wins (demo_heap ! 0) + 1 / 2\<rparr>"
    "h' ! 1 = (demo_heap ! 1)\<lparr>simulations := simulations (demo_heap ! 1) + 1,
                                wins := wins (demo_heap ! 1) + 1 / 2\<rparr>"
    "h' ! 2 = demo_heap ! 2"
    by (simp_all add: demo_heap_def)
  then have "simulations (h' ! 1) = 3 \<and> wins (h' ! 1) = 3 / 2
         \<and> simulations (h' ! 0) = 4 \<and> wins (h' ! 0) = 3 / 2
         \<and> h' ! 2 = demo_heap ! 2"
    by (simp add: demo_heap_def)
  with b c r p show ?thesis by blast
qed

subsection \<open>Selection\<close>

lemma score_less_irrefl: "\<not> score_less u u"
  by (cases u) simp_all

lemma score_less_trans: "score_less u v \<Longrightarrow> score_less v t \<Longrightarrow> score_less u t"
  by (cases u; cases v; cases t) simp_all

lemma score_less_cotrans: "\<not> score_less u v \<Longrightarrow> score_less u t \<Longrightarrow> score_less v t"
  by (cases u; cases v; cases t) simp_all

lemma score_not_less_trans: "\<not> score_less u v \<Longrightarrow> \<not> score_less t u \<Longrightarrow> \<not> score_less t v"
  by (cases u; cases v; cases t) simp_all

lemma max_loop_first_max:
  assumes "\<forall>c\<in>set cs. key c = Inr (sc c)"
    and "i < length pre" and "best = pre ! i" and "bk = sc best"
    and "\<forall>j<length pre. \<not> score_less bk (sc (pre ! j))"
    and "\<forall>j<i. score_less (sc (pre ! j)) bk"
  shows "\<exists>m<length (pre @ cs). max_loop key best bk cs = Inr ((pre @ cs) ! m)
           \<and> (\<forall>j<length (pre @ cs). \<not> score_less (sc ((pre @ cs) ! m)) (sc ((pre @ cs) ! j)))
           \<and> (\<forall>j<m. score_less (sc ((pre @ cs) ! j)) (sc ((pre @ cs) ! m)))"
  using assms
proof (induction cs arbitrary: pre i best bk)
  case Nil
  then show ?case by auto
next
  case (Cons c cs)
  have kc: "key c = Inr (sc c)" and rest: "\<forall>d\<in>set cs. key d = Inr (sc d)"
    using Cons.prems(1) by simp_all
  have app: "(pre @ [c]) @ cs = pre @ c # cs" by simp
  show ?case
  proof (cases "score_less bk (sc c)")
    case True
    have a: "length pre < length (pre @ [c])" by simp
    have b: "c = (pre @ [c]) ! length pre" by simp
    have d: "\<forall>j<length (pre @ [c]). \<not> score_less (sc c) (sc ((pre @ [c]) ! j))"
    proof (intro allI impI)
      fix j assume "j < length (pre @ [c])"
      then consider "j < length pre" | "j = length pre" by fastforce
      then show "\<not> score_less (sc c) (sc ((pre @ [c]) ! j))"
      proof cases
        case 1
        with Cons.prems(5) have "\<not> score_less bk (sc (pre ! j))" by simp
        with True have "\<not> score_less (sc c) (sc (pre ! j))"
          using score_less_trans by blast
        with 1 show ?thesis by (simp add: nth_append)
      next
        case 2
        then show ?thesis by (simp add: score_less_irrefl)
      qed
    qed
    have e: "\<forall>j<length pre. score_less (sc ((pre @ [c]) ! j)) (sc c)"
    proof (intro allI impI)
      fix j assume j: "j < length pre"
      with Cons.prems(5) have "\<not> score_less bk (sc (pre ! j))" by simp
      with True have "score_less (sc (pre ! j)) (sc c)"
        by (rule score_less_cotrans[rotated])
      with j show "score_less (sc ((pre @ [c]) ! j)) (sc c)" by (simp add: nth_append)
    qed
    from Cons.IH[OF rest a b refl d e] True kc show ?thesis
      unfolding app by simp
  next
    case False
    have a: "i < length (pre @ [c])" using Cons.prems(2) by simp
    have b: "best = (pre @ [c]) ! i" using Cons.prems(2,3) by (simp add: nth_append)
    have d: "\<forall>j<length (pre @ [c]). \<not> score_less bk (sc ((pre @ [c]) ! j))"
    proof (intro allI impI)
      fix j assume "j < length (pre @ [c])"
      then consider "j < length pre" | "j = length pre" by fastforce
      then show "\<not> score_less bk (sc ((pre @ [c]) ! j))"
      proof cases
        case 1
        with Cons.prems(5) show ?thesis by (simp add: nth_append)
      next
        case 2
        with False show ?thesis by simp
      qed
    qed
    have e: "\<forall>j<i. score_less (sc ((pre @ [c]) ! j)) bk"
      using Cons.prems(2,6) by (simp add: nth_append)
    from Cons.IH[OF rest a b Cons.prems(4) d e] False kc show ?thesis
      unfolding app by simp
  qed
qed

lemma py_max_first_max:
  assumes "xs \<noteq> []" and "\<forall>c\<in>set xs. key c = Inr (sc c)"
  shows "\<exists>m<length xs. py_max key xs = Inr (xs ! m)
           \<and> (\<forall>j<length xs. \<not> score_less (sc (xs ! m)) (sc (xs ! j)))
           \<and> (\<forall>j<m. score_less (sc (xs ! j)) (sc (xs ! m)))"
proof -
  from assms(1) obtain c cs where xs: "xs = c # cs" by (cases xs) auto
  have "\<exists>m<length ([c] @ cs). max_loop key c (sc c) cs = Inr (([c] @ cs) ! m)
           \<and> (\<forall>j<length ([c] @ cs). \<not> score_less (sc (([c] @ cs) ! m)) (sc (([c] @ cs) ! j)))
           \<and> (\<forall>j<m. score_less (sc (([c] @ cs) ! j)) (sc (([c] @ cs) ! m)))"
    by (rule max_loop_first_max[where i = 0])
       (use assms(2) xs in \<open>simp_all add: score_less_irrefl\<close>)
  with assms(2) xs show ?thesis
    by (simp add: py_max_def)
qed

text \<open>
  The score in exact arithmetic: the child's win rate plus 10 times the square root of
  the logarithm of the parent's simulations over the child's simulations.
\<close>

definition spec_score :: "Node \<Rightarrow> Node \<Rightarrow> real" where
  "spec_score node child =
     wins child / real_of_int (simulations child)
     + 10 * sqrt (ln (real_of_int (simulations node)) / real_of_int (simulations child))"

lemma ucb_key_visited:
  assumes "1 \<le> simulations node" and "1 \<le> simulations child"
  shows "ucb_key node child = Inr (Score (spec_score node child))"
proof -
  have "0 \<le> ln (real_of_int (simulations node))"
    using assms(1) by simp
  moreover have "0 < real_of_int (simulations child)"
    using assms(2) by simp
  ultimately have "\<not> ln (real_of_int (simulations node)) / real_of_int (simulations child) < 0"
    by (simp add: not_less)
  with assms show ?thesis
    by (simp add: ucb_key_def spec_score_def)
qed

lemma ucb_key_ok:
  assumes "1 \<le> simulations node" and "0 \<le> simulations child"
  shows "\<exists>k. ucb_key node child = Inr k"
proof (cases "simulations child = 0")
  case True
  then show ?thesis by (simp add: ucb_key_def)
next
  case False
  with assms(2) have "1 \<le> simulations child" by simp
  with assms(1) show ?thesis by (simp add: ucb_key_visited)
qed

lemma select_child_ok:
  assumes "children (h ! a) = Some cs" and "cs \<noteq> []"
    and "\<forall>c\<in>set cs. \<exists>k. ucb_key (h ! a) (h ! c) = Inr k"
  shows "\<exists>c\<in>set cs. select_child h a = Inr c"
proof -
  let ?key = "\<lambda>c. ucb_key (h ! a) (h ! c)"
  let ?sc = "\<lambda>c. (case ?key c of Inr k \<Rightarrow> k | Inl e \<Rightarrow> Infinity)"
  have "\<forall>c\<in>set cs. ?key c = Inr (?sc c)"
    using assms(3) by fastforce
  from py_max_first_max[OF assms(2) this] obtain m where
    "m < length cs" "py_max ?key cs = Inr (cs ! m)"
    by blast
  with assms(1) show ?thesis
    by (auto simp: select_child_def)
qed

text \<open>
  In exact arithmetic, for a node with a non-empty list of children, itself and each
  child simulated at least once, the key of the child \<open>select_child\<close> returns is the
  greatest, and it is the first such child in the order of the list; \<open>sqrt(100)\<close> is 10.
  This is a property of the exact key only: with the doubles Python computes, the keys
  of two children can tie although their exact scores differ, and then \<open>max\<close> keeps the
  earlier child.
\<close>

lemma select_child_first_max_exact:
  assumes "children (h ! a) = Some cs" and "cs \<noteq> []"
    and "1 \<le> simulations (h ! a)" and "\<forall>c\<in>set cs. 1 \<le> simulations (h ! c)"
  shows "\<exists>m<length cs. select_child h a = Inr (cs ! m)
           \<and> (\<forall>j<length cs. spec_score (h ! a) (h ! (cs ! j)) \<le> spec_score (h ! a) (h ! (cs ! m)))
           \<and> (\<forall>j<m. spec_score (h ! a) (h ! (cs ! j)) < spec_score (h ! a) (h ! (cs ! m)))"
proof -
  let ?key = "\<lambda>c. ucb_key (h ! a) (h ! c)"
  let ?sc = "\<lambda>c. Score (spec_score (h ! a) (h ! c))"
  have "\<forall>c\<in>set cs. ?key c = Inr (?sc c)"
    using assms(3,4) by (simp add: ucb_key_visited)
  from py_max_first_max[OF assms(2) this] obtain m where m: "m < length cs"
    "py_max ?key cs = Inr (cs ! m)"
    "\<forall>j<length cs. \<not> score_less (?sc (cs ! m)) (?sc (cs ! j))"
    "\<forall>j<m. score_less (?sc (cs ! j)) (?sc (cs ! m))"
    by blast
  from m(2) assms(1) have "select_child h a = Inr (cs ! m)"
    by (simp add: select_child_def)
  moreover from m(3) have
    "\<forall>j<length cs. spec_score (h ! a) (h ! (cs ! j)) \<le> spec_score (h ! a) (h ! (cs ! m))"
    by (simp add: not_less)
  moreover from m(4) have
    "\<forall>j<m. spec_score (h ! a) (h ! (cs ! j)) < spec_score (h ! a) (h ! (cs ! m))"
    by simp
  ultimately show ?thesis using m(1) by blast
qed

text \<open>
  The faults of the key. A child without simulations gets the infinite score whatever
  the node; the key never divides by zero; and the logarithm's argument is not positive
  exactly for a node without simulations that has a simulated child, which raises
  ValueError.
\<close>

lemma ucb_key_zero_child: "simulations child = 0 \<Longrightarrow> ucb_key node child = Inr Infinity"
  by (simp add: ucb_key_def)

lemma ucb_key_no_zero_division: "ucb_key node child \<noteq> Inl ZeroDivisionError"
  by (simp add: ucb_key_def)

lemma ucb_key_log_domain:
  "simulations node \<le> 0 \<Longrightarrow> simulations child \<noteq> 0 \<Longrightarrow> ucb_key node child = Inl ValueError"
  by (simp add: ucb_key_def)

text \<open>
  C8. After the move is applied to the current state: when the root has children and \<open>c\<close>
  is the first of them whose board equals the new board, \<open>c\<close> is the new root and the
  store differs only in \<open>c\<close>'s parent, now None, so \<open>c\<close> keeps its simulations, wins,
  state and children and every other node is unchanged. When the root has no child, or
  none with that board, the new root is a new node for the resulting state with no
  parent, no simulation, no win and no children, and the old nodes are unchanged.
\<close>

theorem C8_advance_keeps_statistics:
  assumes "apply_action action current_state = Inr s'"
  shows "(\<forall>cs i. children (h ! rt) = Some cs \<longrightarrow> i < length cs \<longrightarrow> cs ! i < length h
            \<longrightarrow> board (state (h ! (cs ! i))) = board s'
            \<longrightarrow> (\<forall>j<i. board (state (h ! (cs ! j))) \<noteq> board s')
            \<longrightarrow> advance action current_state rt h
                  = Inr (s', cs ! i, h[cs ! i := (h ! (cs ! i))\<lparr>parent := None\<rparr>])
                \<and> parent (h[cs ! i := (h ! (cs ! i))\<lparr>parent := None\<rparr>] ! (cs ! i)) = None
                \<and> (\<forall>b<length h.
                      simulations (h[cs ! i := (h ! (cs ! i))\<lparr>parent := None\<rparr>] ! b)
                        = simulations (h ! b)
                      \<and> wins (h[cs ! i := (h ! (cs ! i))\<lparr>parent := None\<rparr>] ! b) = wins (h ! b)
                      \<and> children (h[cs ! i := (h ! (cs ! i))\<lparr>parent := None\<rparr>] ! b)
                          = children (h ! b)
                      \<and> state (h[cs ! i := (h ! (cs ! i))\<lparr>parent := None\<rparr>] ! b) = state (h ! b)
                      \<and> (b \<noteq> cs ! i \<longrightarrow>
                           h[cs ! i := (h ! (cs ! i))\<lparr>parent := None\<rparr>] ! b = h ! b)))
       \<and> ((\<not> truthy (children (h ! rt))
            \<or> (\<forall>c\<in>set (kids (h ! rt)). board (state (h ! c)) \<noteq> board s'))
           \<longrightarrow> advance action current_state rt h
                 = Inr (s', length h,
                        h @ [\<lparr>parent = None, state = s', simulations = 0, wins = 0,
                               children = None\<rparr>]))"
proof (intro conjI allI impI)
  fix cs i
  assume cs: "children (h ! rt) = Some cs" and i: "i < length cs" and v: "cs ! i < length h"
    and eq: "board (state (h ! (cs ! i))) = board s'"
    and first: "\<forall>j<i. board (state (h ! (cs ! j))) \<noteq> board s'"
  from cs i have t: "truthy (children (h ! rt))"
    by (cases cs) (simp_all add: truthy_def)
  from cs have k: "kids (h ! rt) = cs" by (simp add: kids_def)
  have "find (\<lambda>c. board (state (h ! c)) = board s') cs = Some (cs ! i)"
    unfolding find_Some_iff using i eq first by blast
  with assms t k
  show "advance action current_state rt h
          = Inr (s', cs ! i, h[cs ! i := (h ! (cs ! i))\<lparr>parent := None\<rparr>])"
    by (simp add: advance_def)
  show "parent (h[cs ! i := (h ! (cs ! i))\<lparr>parent := None\<rparr>] ! (cs ! i)) = None"
    using v by simp
  fix b
  assume b: "b < length h"
  show "simulations (h[cs ! i := (h ! (cs ! i))\<lparr>parent := None\<rparr>] ! b) = simulations (h ! b)"
    "wins (h[cs ! i := (h ! (cs ! i))\<lparr>parent := None\<rparr>] ! b) = wins (h ! b)"
    "children (h[cs ! i := (h ! (cs ! i))\<lparr>parent := None\<rparr>] ! b) = children (h ! b)"
    "state (h[cs ! i := (h ! (cs ! i))\<lparr>parent := None\<rparr>] ! b) = state (h ! b)"
    using b v by (simp_all add: nth_list_update)
  assume "b \<noteq> cs ! i"
  then show "h[cs ! i := (h ! (cs ! i))\<lparr>parent := None\<rparr>] ! b = h ! b"
    by simp
next
  assume no: "\<not> truthy (children (h ! rt))
            \<or> (\<forall>c\<in>set (kids (h ! rt)). board (state (h ! c)) \<noteq> board s')"
  show "advance action current_state rt h
          = Inr (s', length h,
                 h @ [\<lparr>parent = None, state = s', simulations = 0, wins = 0, children = None\<rparr>])"
  proof (cases "truthy (children (h ! rt))")
    case False
    with assms show ?thesis by (simp add: advance_def fresh_root_def)
  next
    case True
    with no have "\<forall>c\<in>set (kids (h ! rt)). board (state (h ! c)) \<noteq> board s'" by simp
    then have "find (\<lambda>c. board (state (h ! c)) = board s') (kids (h ! rt)) = None"
      by (simp add: find_None_iff)
    with assms True show ?thesis by (simp add: advance_def fresh_root_def)
  qed
qed

theorem C8_advance_keeps_statistics_witness:
  "apply_action (2, 2) demo_state
     = Inr \<lparr>board = [[1, 2, 1], [1, 2, 2], [0, 1, 2]], turn = Turn_x\<rparr>
   \<and> children (demo_heap ! 0) = Some [1, 2] \<and> (1::nat) < length [1, 2 :: nat]
   \<and> [1, 2] ! 1 < length demo_heap
   \<and> advance (2, 2) demo_state 0 demo_heap
       = Inr (\<lparr>board = [[1, 2, 1], [1, 2, 2], [0, 1, 2]], turn = Turn_x\<rparr>, 2,
              demo_heap[2 := (demo_heap ! 2)\<lparr>parent := None\<rparr>])
   \<and> simulations (demo_heap[2 := (demo_heap ! 2)\<lparr>parent := None\<rparr>] ! 2) = 1"
proof -
  let ?s' = "\<lparr>board = [[1, 2, 1], [1, 2, 2], [0, 1, 2]], turn = Turn_x\<rparr>"
  have a: "apply_action (2, 2) demo_state = Inr ?s'"
    by (simp add: apply_action_def py_index_def demo_state_def)
  have b: "children (demo_heap ! 0) = Some [1, 2]" "(1::nat) < length [1, 2 :: nat]"
    "[1, 2] ! 1 < length demo_heap"
    "board (state (demo_heap ! ([1, 2] ! 1))) = board ?s'"
    "\<forall>j<1. board (state (demo_heap ! ([1, 2] ! j))) \<noteq> board ?s'"
    by (simp_all add: demo_heap_def)
  from C8_advance_keeps_statistics[OF a, of demo_heap 0] b
  have "advance (2, 2) demo_state 0 demo_heap
       = Inr (?s', [1, 2] ! 1, demo_heap[[1, 2] ! 1 := (demo_heap ! ([1, 2] ! 1))\<lparr>parent := None\<rparr>])"
    by blast
  then have "advance (2, 2) demo_state 0 demo_heap
       = Inr (?s', 2, demo_heap[2 := (demo_heap ! 2)\<lparr>parent := None\<rparr>])"
    by simp
  moreover have "simulations (demo_heap[2 := (demo_heap ! 2)\<lparr>parent := None\<rparr>] ! 2) = 1"
    by (simp add: demo_heap_def)
  ultimately show ?thesis using a b(1,2,3) by simp
qed

section \<open>Well-formed search trees\<close>

text \<open>
  What \<open>expand\<close> and the backpropagation establish for every node of the store, and the
  search loop relies on: the board is 3 by 3; the simulation count is not negative; a
  node's parent is in the store and has more empty cells; each child is in the store,
  names the node as its parent, and has been simulated only if the node has.
\<close>

definition node_ok :: "Node list \<Rightarrow> addr \<Rightarrow> bool" where
  "node_ok h a =
     (wf_board (board (state (h ! a))) \<and> 0 \<le> simulations (h ! a)
      \<and> (case parent (h ! a) of
            None \<Rightarrow> True
          | Some p \<Rightarrow> p < length h
              \<and> count_empty (board (state (h ! a))) < count_empty (board (state (h ! p))))
      \<and> list_all (\<lambda>c. c < length h \<and> parent (h ! c) = Some a
                       \<and> (simulations (h ! c) \<le> 0 \<or> 0 < simulations (h ! a)))
           (kids (h ! a)))"

definition tree_inv :: "Node list \<Rightarrow> bool" where
  "tree_inv h = list_all (node_ok h) [0..<length h]"

lemma tree_inv_iff: "tree_inv h \<longleftrightarrow> (\<forall>a<length h. node_ok h a)"
  by (auto simp: tree_inv_def list_all_iff)

lemma truthy_kids: "truthy (children n) \<longleftrightarrow> kids n \<noteq> []"
  by (auto simp: truthy_def kids_def split: option.splits list.splits)

lemma inv_node_ok: "tree_inv h \<Longrightarrow> a < length h \<Longrightarrow> node_ok h a"
  by (simp add: tree_inv_iff)

lemma inv_node:
  assumes "tree_inv h" and "a < length h"
  shows "wf_board (board (state (h ! a)))" and "0 \<le> simulations (h ! a)"
  using inv_node_ok[OF assms] by (simp_all add: node_ok_def)

lemma inv_parent:
  assumes "tree_inv h" and "a < length h" and "parent (h ! a) = Some p"
  shows "p < length h"
    and "count_empty (board (state (h ! a))) < count_empty (board (state (h ! p)))"
  using inv_node_ok[OF assms(1,2)] assms(3) by (simp_all add: node_ok_def)

lemma inv_child:
  assumes "tree_inv h" and "a < length h" and "c \<in> set (kids (h ! a))"
  shows "c < length h" and "parent (h ! c) = Some a"
    and "0 < simulations (h ! c) \<Longrightarrow> 0 < simulations (h ! a)"
    and "count_empty (board (state (h ! c))) < count_empty (board (state (h ! a)))"
    and "0 \<le> simulations (h ! c)"
proof -
  from inv_node_ok[OF assms(1,2)] assms(3)
  have k: "c < length h \<and> parent (h ! c) = Some a
      \<and> (simulations (h ! c) \<le> 0 \<or> 0 < simulations (h ! a))"
    by (simp add: node_ok_def list_all_iff)
  then show "c < length h" and p: "parent (h ! c) = Some a" by simp_all
  from k show "0 < simulations (h ! c) \<Longrightarrow> 0 < simulations (h ! a)" by auto
  from k assms(1) p
  show "count_empty (board (state (h ! c))) < count_empty (board (state (h ! a)))"
    by (simp add: inv_parent)
  from k assms(1) show "0 \<le> simulations (h ! c)" by (simp add: inv_node)
qed

lemma tree_inv_fresh: "wf_board (board s) \<Longrightarrow> tree_inv [fresh_root s]"
  by (simp add: tree_inv_iff node_ok_def fresh_root_def kids_def)

subsection \<open>Expansion keeps the tree well-formed\<close>

lemma apply_all_valid:
  assumes "get_valid_actions s = Inr acts" and "set as \<subseteq> set acts"
  shows "\<exists>ss. apply_all as s = Inr ss \<and> length ss = length as
           \<and> (\<forall>s'\<in>set ss. Suc (count_empty (board s')) = count_empty (board s)
                 \<and> (wf_board (board s) \<longrightarrow> wf_board (board s')))"
  using assms(2)
proof (induction as)
  case Nil
  then show ?case by simp
next
  case (Cons a as)
  then have "a \<in> set acts" and "set as \<subseteq> set acts" by simp_all
  from apply_valid_action[OF assms(1) this(1)] Cons.IH[OF this(2)]
  show ?case by fastforce
qed

lemma expand_result:
  assumes "wf_board (board (state (heap w ! a)))"
  shows "\<exists>ss. expand a w =
            Inr (w\<lparr>heap := (heap w @ map (new_child a) ss)
                            [a := (heap w ! a)\<lparr>children :=
                               Some [length (heap w)..<length (heap w) + length ss]\<rparr>],
                   expand_log := expand_log w @ [(a, children (heap w ! a))]\<rparr>)
          \<and> (\<forall>s'\<in>set ss. count_empty (board s') < count_empty (board (state (heap w ! a)))
                \<and> wf_board (board s'))"
proof -
  from assms obtain acts where acts: "get_valid_actions (state (heap w ! a)) = Inr acts"
    using get_valid_actions_wf by blast
  from apply_all_valid[OF acts subset_refl] obtain ss where
    ss: "apply_all acts (state (heap w ! a)) = Inr ss"
    "\<forall>s'\<in>set ss. Suc (count_empty (board s')) = count_empty (board (state (heap w ! a)))
                 \<and> (wf_board (board (state (heap w ! a))) \<longrightarrow> wf_board (board s'))"
    by blast
  from ss(2) assms have
    "\<forall>s'\<in>set ss. count_empty (board s') < count_empty (board (state (heap w ! a)))
                \<and> wf_board (board s')"
    by fastforce
  with acts ss(1) show ?thesis
    by (intro exI[of _ ss]) (simp add: expand_def)
qed

lemma new_child_fields [simp]:
  "parent (new_child a s) = Some a" "state (new_child a s) = s"
  "simulations (new_child a s) = 0" "wins (new_child a s) = 0"
  "children (new_child a s) = None" "kids (new_child a s) = []"
  by (simp_all add: new_child_def kids_def)

lemma expanded_heap:
  fixes ss :: "State list"
  assumes "a < length h"
  defines "h' \<equiv> (h @ map (new_child a) ss)[a := (h ! a)\<lparr>children :=
                    Some [length h..<length h + length ss]\<rparr>]"
  shows "length h' = length h + length ss"
    and "\<And>b. b < length h \<Longrightarrow> b \<noteq> a \<Longrightarrow> h' ! b = h ! b"
    and "h' ! a = (h ! a)\<lparr>children := Some [length h..<length h + length ss]\<rparr>"
    and "\<And>b. length h \<le> b \<Longrightarrow> b < length h + length ss \<Longrightarrow>
            h' ! b = new_child a (ss ! (b - length h))"
    and "\<And>b. b < length h \<Longrightarrow> parent (h' ! b) = parent (h ! b) \<and> state (h' ! b) = state (h ! b)
            \<and> simulations (h' ! b) = simulations (h ! b) \<and> wins (h' ! b) = wins (h ! b)"
proof -
  show "length h' = length h + length ss" by (simp add: h'_def)
  show "h' ! b = h ! b" if "b < length h" "b \<noteq> a" for b
    using that by (simp add: h'_def nth_append)
  show "h' ! a = (h ! a)\<lparr>children := Some [length h..<length h + length ss]\<rparr>"
    using assms(1) by (simp add: h'_def)
  show "h' ! b = new_child a (ss ! (b - length h))"
    if "length h \<le> b" "b < length h + length ss" for b
    using that assms(1) by (simp add: h'_def nth_append)
  show "parent (h' ! b) = parent (h ! b) \<and> state (h' ! b) = state (h ! b)
            \<and> simulations (h' ! b) = simulations (h ! b) \<and> wins (h' ! b) = wins (h ! b)"
    if "b < length h" for b
    using that assms(1) by (cases "b = a") (simp_all add: h'_def nth_append)
qed

lemma expanded_inv:
  assumes inv: "tree_inv h" and a: "a < length h"
    and ss: "\<forall>s'\<in>set ss. count_empty (board s') < count_empty (board (state (h ! a)))
                \<and> wf_board (board s')"
  shows "tree_inv ((h @ map (new_child a) ss)[a := (h ! a)\<lparr>children :=
                    Some [length h..<length h + length ss]\<rparr>])"
proof -
  let ?h' = "(h @ map (new_child a) ss)[a := (h ! a)\<lparr>children :=
                    Some [length h..<length h + length ss]\<rparr>]"
  note eh = expanded_heap[OF a, where ss = ss]
  have old: "parent (?h' ! b) = parent (h ! b)" "state (?h' ! b) = state (h ! b)"
    "simulations (?h' ! b) = simulations (h ! b)" if "b < length h" for b
    using eh(5)[OF that] by simp_all
  show ?thesis
    unfolding tree_inv_iff
  proof (intro allI impI)
    fix b
    assume "b < length ?h'"
    then have b: "b < length h + length ss" by (simp add: eh(1))
    show "node_ok ?h' b"
    proof (cases "b < length h")
      case True
      have 1: "wf_board (board (state (?h' ! b)))" "0 \<le> simulations (?h' ! b)"
        using inv_node[OF inv True] old[OF True] by simp_all
      have 2: "case parent (?h' ! b) of None \<Rightarrow> True
          | Some p \<Rightarrow> p < length ?h'
              \<and> count_empty (board (state (?h' ! b))) < count_empty (board (state (?h' ! p)))"
      proof (cases "parent (h ! b)")
        case None
        with old(1)[OF True] show ?thesis by simp
      next
        case (Some p)
        from inv_parent[OF inv True Some] old[OF True] old(2)[of p] Some eh(1)
        show ?thesis by simp
      qed
      have 3: "list_all (\<lambda>c. c < length ?h' \<and> parent (?h' ! c) = Some b
                       \<and> (simulations (?h' ! c) \<le> 0 \<or> 0 < simulations (?h' ! b)))
           (kids (?h' ! b))"
      proof (cases "b = a")
        case True
        have "kids (?h' ! a) = [length h..<length h + length ss]"
          by (simp add: eh(3) kids_def)
        moreover have "c < length ?h' \<and> parent (?h' ! c) = Some a \<and> simulations (?h' ! c) \<le> 0"
          if "c \<in> set [length h..<length h + length ss]" for c
          using that eh(4)[of c] eh(1) by simp
        ultimately show ?thesis unfolding True list_all_iff by simp
      next
        case False
        with True have same: "?h' ! b = h ! b" by (rule eh(2))
        have "c < length ?h' \<and> parent (?h' ! c) = Some b
            \<and> (simulations (?h' ! c) \<le> 0 \<or> 0 < simulations (h ! b))"
          if "c \<in> set (kids (h ! b))" for c
        proof -
          note ic = inv_child[OF inv True that]
          from ic(1) old[of c] ic(2) ic(3) eh(1) show ?thesis by fastforce
        qed
        then show ?thesis unfolding same list_all_iff by simp
      qed
      from 1 2 3 show ?thesis by (simp add: node_ok_def)
    next
      case False
      with b have n: "?h' ! b = new_child a (ss ! (b - length h))"
        and m: "ss ! (b - length h) \<in> set ss"
        using eh(4)[of b] by simp_all
      from ss m have "count_empty (board (ss ! (b - length h))) < count_empty (board (state (h ! a)))"
        and "wf_board (board (ss ! (b - length h)))" by simp_all
      with a old(2)[OF a] eh(1) show ?thesis
        by (simp add: node_ok_def n)
    qed
  qed
qed

lemma expand_ok:
  assumes "tree_inv (heap w)" and "a < length (heap w)"
  shows "\<exists>w'. expand a w = Inr w' \<and> tree_inv (heap w')
           \<and> length (heap w) \<le> length (heap w')
           \<and> rand w' = rand w
           \<and> expand_log w' = expand_log w @ [(a, children (heap w ! a))]
           \<and> (\<forall>c\<in>set (kids (heap w' ! a)). simulations (heap w' ! c) = 0)
           \<and> (\<forall>b<length (heap w). parent (heap w' ! b) = parent (heap w ! b)
                 \<and> simulations (heap w' ! b) = simulations (heap w ! b)
                 \<and> (b \<noteq> a \<longrightarrow> heap w' ! b = heap w ! b))"
proof -
  from expand_result[OF inv_node(1)[OF assms]] obtain ss where
    e: "expand a w =
            Inr (w\<lparr>heap := (heap w @ map (new_child a) ss)
                            [a := (heap w ! a)\<lparr>children :=
                               Some [length (heap w)..<length (heap w) + length ss]\<rparr>],
                   expand_log := expand_log w @ [(a, children (heap w ! a))]\<rparr>)"
    and ss: "\<forall>s'\<in>set ss. count_empty (board s') < count_empty (board (state (heap w ! a)))
                \<and> wf_board (board s')"
    by blast
  let ?h' = "(heap w @ map (new_child a) ss)[a := (heap w ! a)\<lparr>children :=
                    Some [length (heap w)..<length (heap w) + length ss]\<rparr>]"
  note eh = expanded_heap[OF assms(2), where ss = ss]
  have "tree_inv ?h'" using assms ss by (rule expanded_inv)
  moreover have "\<forall>c\<in>set (kids (?h' ! a)). simulations (?h' ! c) = 0"
    using eh(4) by (simp add: eh(3) kids_def)
  moreover have "\<forall>b<length (heap w). parent (?h' ! b) = parent (heap w ! b)
                 \<and> simulations (?h' ! b) = simulations (heap w ! b)
                 \<and> (b \<noteq> a \<longrightarrow> ?h' ! b = heap w ! b)"
    using eh(2) eh(5) by blast
  ultimately show ?thesis
    using e eh(1) by simp
qed

subsection \<open>The descent returns\<close>

lemma find_zero:
  assumes "\<not> list_all (\<lambda>c. 0 < simulations (h ! c)) cs"
    and "\<forall>c\<in>set cs. 0 \<le> simulations (h ! c)"
  shows "\<exists>c\<in>set cs. find (\<lambda>c. simulations (h ! c) = 0) cs = Some c \<and> simulations (h ! c) = 0"
proof -
  from assms obtain d where "d \<in> set cs" "simulations (h ! d) = 0"
    by (fastforce simp: list_all_iff)
  then have "find (\<lambda>c. simulations (h ! c) = 0) cs \<noteq> None"
    by (auto simp: find_None_iff)
  then obtain c where c: "find (\<lambda>c. simulations (h ! c) = 0) cs = Some c" by blast
  then have "c \<in> set cs" "simulations (h ! c) = 0"
    by (auto simp: find_Some_iff)
  with c show ?thesis by blast
qed

lemma descend_step_ok:
  assumes inv: "tree_inv h" and a: "a < length h" and t: "truthy (children (h ! a))"
  shows "\<exists>c go. descend_step h a = Inr (c, go) \<and> c \<in> set (kids (h ! a))
           \<and> (\<not> go \<longrightarrow> simulations (h ! c) = 0)"
proof (cases "list_all (\<lambda>c. 0 < simulations (h ! c)) (kids (h ! a))")
  case True
  from t obtain cs where cs: "children (h ! a) = Some cs" "cs \<noteq> []" "kids (h ! a) = cs"
    by (auto simp: truthy_def kids_def split: option.splits list.splits)
  have "\<exists>k. ucb_key (h ! a) (h ! c) = Inr k" if "c \<in> set cs" for c
  proof -
    from that cs(3) have m: "c \<in> set (kids (h ! a))" by simp
    from True m have "0 < simulations (h ! c)" by (simp add: list_all_iff)
    with inv_child(3)[OF inv a m] have "1 \<le> simulations (h ! a)" "0 \<le> simulations (h ! c)"
      by simp_all
    then show ?thesis by (rule ucb_key_ok)
  qed
  then have "\<forall>c\<in>set cs. \<exists>k. ucb_key (h ! a) (h ! c) = Inr k" by blast
  from select_child_ok[OF cs(1,2) this] obtain c where
    "c \<in> set cs" "select_child h a = Inr c" by blast
  with True cs(3) show ?thesis by (auto simp: descend_step_def)
next
  case False
  have "\<forall>c\<in>set (kids (h ! a)). 0 \<le> simulations (h ! c)"
    using inv_child(5)[OF inv a] by blast
  from find_zero[OF False this] False show ?thesis
    by (auto simp: descend_step_def)
qed

lemma descend_ok:
  assumes inv: "tree_inv h"
  shows "a < length h \<Longrightarrow>
    \<exists>c pre. descend h a = Some (Inr c) \<and> c < length h
       \<and> (\<not> truthy (children (h ! c)) \<or> simulations (h ! c) = 0)
       \<and> (\<forall>as. chain h (Some a) as \<longrightarrow> chain h (Some c) (pre @ as))"
proof (induction "count_empty (board (state (h ! a)))" arbitrary: a rule: less_induct)
  case less
  show ?case
  proof (cases "truthy (children (h ! a))")
    case False
    then have "descend h a = Some (Inr a)"
      by (subst descend.simps) simp
    with False less.prems show ?thesis
      by (intro exI[of _ a] exI[of _ "[]"]) simp
  next
    case True
    from descend_step_ok[OF inv less.prems True] obtain c go where
      st: "descend_step h a = Inr (c, go)" and m: "c \<in> set (kids (h ! a))"
      and z: "\<not> go \<longrightarrow> simulations (h ! c) = 0"
      by blast
    note ic = inv_child[OF inv less.prems m]
    have up: "chain h (Some c) (c # as)" if "chain h (Some a) as" for as
      using that ic(1,2) by (simp add: chain.chain_Some)
    show ?thesis
    proof (cases go)
      case False
      with st True have "descend h a = Some (Inr c)"
        by (subst descend.simps) simp
      with False z ic(1) up show ?thesis
        by (intro exI[of _ c] exI[of _ "[c]"]) simp
    next
      case go: True
      from less.hyps[OF ic(4) ic(1)] obtain d pre where
        d: "descend h c = Some (Inr d)" "d < length h"
        "\<not> truthy (children (h ! d)) \<or> simulations (h ! d) = 0"
        "\<forall>as. chain h (Some c) as \<longrightarrow> chain h (Some d) (pre @ as)"
        by blast
      from st True go d(1) have "descend h a = Some (Inr d)"
        by (subst descend.simps) simp
      moreover have "\<forall>as. chain h (Some a) as \<longrightarrow> chain h (Some d) ((pre @ [c]) @ as)"
        using up d(4) by simp
      ultimately show ?thesis using d(2,3) by blast
    qed
  qed
qed

subsection \<open>Every node has a chain of parents\<close>

lemma chain_exists:
  assumes inv: "tree_inv h"
  shows "a < length h \<Longrightarrow> \<exists>as. chain h (Some a) as"
proof (induction "9 - count_empty (board (state (h ! a)))" arbitrary: a rule: less_induct)
  case less
  show ?case
  proof (cases "parent (h ! a)")
    case None
    have "chain h (parent (h ! a)) []" unfolding None by (rule chain.chain_None)
    with less.prems have "chain h (Some a) [a]" by (rule chain.chain_Some)
    then show ?thesis by blast
  next
    case (Some p)
    note ip = inv_parent[OF inv less.prems Some]
    from inv_node(1)[OF inv ip(1)] have "count_empty (board (state (h ! p))) \<le> 9"
      by (rule count_empty_le9)
    with ip(2) have "9 - count_empty (board (state (h ! p)))
        < 9 - count_empty (board (state (h ! a)))" by simp
    from less.hyps[OF this ip(1)] obtain as where "chain h (Some p) as" by blast
    then have "chain h (parent (h ! a)) as" by (simp add: Some)
    with less.prems have "chain h (Some a) (a # as)" by (rule chain.chain_Some)
    then show ?thesis by blast
  qed
qed

lemma chain_grow:
  "chain h n as \<Longrightarrow> length h \<le> length h' \<Longrightarrow> \<forall>a<length h. parent (h' ! a) = parent (h ! a) \<Longrightarrow>
   chain h' n as"
proof (induction rule: chain.induct)
  case (chain_None h)
  then show ?case by (simp add: chain.chain_None)
next
  case (chain_Some a h as)
  then have "chain h' (parent (h' ! a)) as" by simp
  moreover from chain_Some.hyps(1) chain_Some.prems(1) have "a < length h'" by simp
  ultimately show ?case by (simp add: chain.chain_Some)
qed

subsection \<open>Backpropagation keeps the tree well-formed\<close>

lemma bumped_inv:
  assumes inv: "tree_inv h" and ch: "chain h n as" and len: "length h' = length h"
    and h': "\<forall>b<length h. h' ! b = (if b \<in> set as then bump r (h ! b) else h ! b)"
  shows "tree_inv h'"
  unfolding tree_inv_iff
proof (intro allI impI)
  fix b
  assume "b < length h'"
  with len have b: "b < length h" by simp
  have f: "parent (h' ! c) = parent (h ! c)" "state (h' ! c) = state (h ! c)"
    "kids (h' ! c) = kids (h ! c)" "simulations (h ! c) \<le> simulations (h' ! c)"
    if "c < length h" for c
    using h' that by (simp_all add: kids_def)
  have g: "simulations (h' ! c) = simulations (h ! c) + 1" if "c < length h" "c \<in> set as" for c
    using h' that by simp
  have g': "simulations (h' ! c) = simulations (h ! c)" if "c < length h" "c \<notin> set as" for c
    using h' that by simp
  have 1: "wf_board (board (state (h' ! b)))" "0 \<le> simulations (h' ! b)"
    using inv_node[OF inv b] f[OF b] by simp_all
  have 2: "case parent (h' ! b) of None \<Rightarrow> True
          | Some p \<Rightarrow> p < length h'
              \<and> count_empty (board (state (h' ! b))) < count_empty (board (state (h' ! p)))"
  proof (cases "parent (h ! b)")
    case None
    with f(1)[OF b] show ?thesis by simp
  next
    case (Some p)
    from inv_parent[OF inv b Some] f[OF b] f(2)[of p] Some len show ?thesis by simp
  qed
  have 3: "c < length h' \<and> parent (h' ! c) = Some b
             \<and> (simulations (h' ! c) \<le> 0 \<or> 0 < simulations (h' ! b))"
    if "c \<in> set (kids (h ! b))" for c
  proof -
    note ic = inv_child[OF inv b that]
    have "simulations (h' ! c) \<le> 0 \<or> 0 < simulations (h' ! b)"
    proof (cases "c \<in> set as")
      case True
      from ch True ic(2) have "b \<in> set as" by (rule chain_parent_closed)
      with g[OF b] inv_node(2)[OF inv b] show ?thesis by simp
    next
      case False
      show ?thesis
      proof (cases "0 < simulations (h ! c)")
        case True
        with ic(3) f(4)[OF b] show ?thesis by simp
      next
        case False
        with g'[OF ic(1) \<open>c \<notin> set as\<close>] show ?thesis by simp
      qed
    qed
    with ic(1,2) f(1)[OF ic(1)] len show ?thesis by simp
  qed
  then have "list_all (\<lambda>c. c < length h' \<and> parent (h' ! c) = Some b
                       \<and> (simulations (h' ! c) \<le> 0 \<or> 0 < simulations (h' ! b)))
           (kids (h' ! b))"
    unfolding f(3)[OF b] list_all_iff by blast
  with 1 2 show "node_ok h' b" by (simp add: node_ok_def)
qed

subsection \<open>The playout returns\<close>

lemma playout_ok:
  "wf_board (board s) \<Longrightarrow>
   \<exists>winner n g'. playout g s = Inr (winner, n, g') \<and> n \<le> count_empty (board s)"
proof (induction g s rule: playout.induct)
  case (1 g s)
  from check_win_wf[OF "1.prems"] obtain winner where w: "check_win_conditions s = Inr winner"
    by blast
  show ?case
  proof (cases "winner \<noteq> None")
    case True
    with w show ?thesis by (subst playout.simps) simp
  next
    case False
    from get_valid_actions_wf[OF "1.prems"] obtain acts where
      acts: "get_valid_actions s = Inr acts" by blast
    show ?thesis
    proof (cases "acts = []")
      case True
      with w False acts show ?thesis by (subst playout.simps) simp
    next
      case ne: False
      from random_choice_ok[OF ne] obtain action g1 where
        rc: "random_choice g acts = Inr (action, g1)" "action \<in> set acts" by blast
      from apply_valid_action[OF acts rc(2)] obtain s' where
        s': "apply_action action s = Inr s'"
        "Suc (count_empty (board s')) = count_empty (board s)"
        "wf_board (board s')"
        using "1.prems" by blast
      from "1.IH"[OF w False acts ne rc(1) refl s'(1) s'(3)] obtain w' n g' where
        r: "playout g1 s' = Inr (w', n, g')" "n \<le> count_empty (board s')" by blast
      from w False acts ne rc(1) s'(1) r(1) have "playout g s = Inr (w', Suc n, g')"
        by (subst playout.simps) simp
      with r(2) s'(2) show ?thesis by simp
    qed
  qed
qed

subsection \<open>One pass of the search loop\<close>

text \<open>
  What every step of the search keeps of a world: the store only grows; the log of
  \<open>expand\<close> calls is extended by calls on nodes whose \<open>children\<close> field was None or empty;
  no node changes its parent, and no non-empty list of children is replaced.
\<close>

definition grows :: "world \<Rightarrow> world \<Rightarrow> bool" where
  "grows w w' =
     (length (heap w) \<le> length (heap w')
      \<and> (\<exists>new. expand_log w' = expand_log w @ new \<and> list_all (\<lambda>e. \<not> truthy (snd e)) new)
      \<and> (\<forall>b<length (heap w). parent (heap w' ! b) = parent (heap w ! b)
            \<and> (\<not> truthy (children (heap w ! b))
                 \<or> children (heap w' ! b) = children (heap w ! b))))"

lemma grows_refl: "grows w w"
  by (simp add: grows_def)

lemma grows_trans:
  assumes "grows w w1" and "grows w1 w2"
  shows "grows w w2"
proof -
  from assms obtain n1 n2 where
    n: "expand_log w1 = expand_log w @ n1" "list_all (\<lambda>e. \<not> truthy (snd e)) n1"
    "expand_log w2 = expand_log w1 @ n2" "list_all (\<lambda>e. \<not> truthy (snd e)) n2"
    unfolding grows_def by blast
  then have "expand_log w2 = expand_log w @ (n1 @ n2) \<and> list_all (\<lambda>e. \<not> truthy (snd e)) (n1 @ n2)"
    by simp
  then have 1: "\<exists>new. expand_log w2 = expand_log w @ new \<and> list_all (\<lambda>e. \<not> truthy (snd e)) new"
    by blast
  have 2: "parent (heap w2 ! b) = parent (heap w ! b)
            \<and> (\<not> truthy (children (heap w ! b))
                 \<or> children (heap w2 ! b) = children (heap w ! b))"
    if "b < length (heap w)" for b
  proof -
    from that assms(1) have b1: "b < length (heap w1)" by (simp add: grows_def)
    from that assms(1) have s1: "parent (heap w1 ! b) = parent (heap w ! b)"
      "\<not> truthy (children (heap w ! b)) \<or> children (heap w1 ! b) = children (heap w ! b)"
      by (simp_all add: grows_def)
    from b1 assms(2) have s2: "parent (heap w2 ! b) = parent (heap w1 ! b)"
      "\<not> truthy (children (heap w1 ! b)) \<or> children (heap w2 ! b) = children (heap w1 ! b)"
      by (simp_all add: grows_def)
    from s1 s2 show ?thesis by auto
  qed
  from assms have "length (heap w) \<le> length (heap w2)" by (simp add: grows_def)
  with 1 2 show ?thesis by (simp add: grows_def)
qed

lemma expand_grows:
  assumes inv: "tree_inv (heap w)" and a: "a < length (heap w)"
    and f: "\<not> truthy (children (heap w ! a))"
  shows "\<exists>w'. expand a w = Inr w' \<and> tree_inv (heap w') \<and> grows w w' \<and> rand w' = rand w
           \<and> (\<forall>b<length (heap w). simulations (heap w' ! b) = simulations (heap w ! b))
           \<and> (\<forall>c\<in>set (kids (heap w' ! a)). simulations (heap w' ! c) = 0)"
proof -
  from expand_ok[OF inv a] obtain w' where
    w': "expand a w = Inr w'" "tree_inv (heap w')" "length (heap w) \<le> length (heap w')"
    "rand w' = rand w" "expand_log w' = expand_log w @ [(a, children (heap w ! a))]"
    "\<forall>c\<in>set (kids (heap w' ! a)). simulations (heap w' ! c) = 0"
    "\<forall>b<length (heap w). parent (heap w' ! b) = parent (heap w ! b)
                 \<and> simulations (heap w' ! b) = simulations (heap w ! b)
                 \<and> (b \<noteq> a \<longrightarrow> heap w' ! b = heap w ! b)"
    by blast
  have "\<exists>new. expand_log w' = expand_log w @ new \<and> list_all (\<lambda>e. \<not> truthy (snd e)) new"
    using w'(5) f by simp
  moreover have "parent (heap w' ! b) = parent (heap w ! b)
            \<and> (\<not> truthy (children (heap w ! b))
                 \<or> children (heap w' ! b) = children (heap w ! b))"
    if "b < length (heap w)" for b
    using w'(7) that f by (cases "b = a") auto
  ultimately have "grows w w'" using w'(3) by (simp add: grows_def)
  with w' show ?thesis by blast
qed

lemma random_rollout_ok:
  assumes inv: "tree_inv (heap w)" and a: "a < length (heap w)"
  shows "\<exists>w' as. random_rollout a w = Some (Inr w') \<and> chain (heap w) (Some a) as
           \<and> tree_inv (heap w') \<and> grows w w'
           \<and> (\<forall>b<length (heap w). simulations (heap w' ! b)
                 = simulations (heap w ! b) + (if b \<in> set as then 1 else 0))"
proof -
  from chain_exists[OF inv a] obtain as where as: "chain (heap w) (Some a) as" by blast
  from playout_ok[OF inv_node(1)[OF inv a]] obtain winner n g where
    p: "playout (rand w) (state (heap w ! a)) = Inr (winner, n, g)" by blast
  let ?r = "rollout_result winner (turn (state (heap w ! a)))"
  from backprop_chain[OF as, of ?r] obtain h' where
    h': "backprop (heap w) (Some a) ?r = Some h'" "length h' = length (heap w)"
    "\<forall>b<length (heap w). h' ! b = (if b \<in> set as then bump ?r (heap w ! b) else heap w ! b)"
    by blast
  let ?w' = "w\<lparr>heap := h', rand := g\<rparr>"
  have r: "random_rollout a w = Some (Inr ?w')"
    using p h'(1) by (simp add: random_rollout_def)
  have i: "tree_inv (heap ?w')"
    using bumped_inv[OF inv as h'(2,3)] by simp
  have "grows w ?w'"
    using h'(2,3) by (simp add: grows_def)
  moreover have "\<forall>b<length (heap w). simulations (heap ?w' ! b)
                 = simulations (heap w ! b) + (if b \<in> set as then 1 else 0)"
    using h'(3) by simp
  ultimately show ?thesis using r i as by blast
qed

lemma expand_and_pick_ok:
  assumes inv: "tree_inv (heap w)" and c: "curr_node < length (heap w)"
    and leaf: "\<not> truthy (children (heap w ! curr_node)) \<or> simulations (heap w ! curr_node) = 0"
  shows "\<exists>node w'. expand_and_pick curr_node w = Inr (node, w') \<and> tree_inv (heap w')
           \<and> node < length (heap w') \<and> grows w w'
           \<and> (\<forall>b<length (heap w). simulations (heap w' ! b) = simulations (heap w ! b))
           \<and> (\<forall>as. chain (heap w) (Some curr_node) as
                 \<longrightarrow> (\<exists>pre. chain (heap w') (Some node) (pre @ as)))"
proof (cases "0 < simulations (heap w ! curr_node)")
  case False
  then have "expand_and_pick curr_node w = Inr (curr_node, w)"
    by (simp add: expand_and_pick_def)
  moreover have "\<forall>as. chain (heap w) (Some curr_node) as
                 \<longrightarrow> (\<exists>pre. chain (heap w) (Some curr_node) (pre @ as))"
    by (metis append_Nil)
  ultimately show ?thesis using inv c grows_refl by blast
next
  case True
  with leaf have f: "\<not> truthy (children (heap w ! curr_node))" by simp
  from expand_grows[OF inv c f] obtain w1 where
    w1: "expand curr_node w = Inr w1" "tree_inv (heap w1)" "grows w w1" "rand w1 = rand w"
    "\<forall>b<length (heap w). simulations (heap w1 ! b) = simulations (heap w ! b)"
    by blast
  from w1(3) have len: "length (heap w) \<le> length (heap w1)"
    and par: "\<forall>b<length (heap w). parent (heap w1 ! b) = parent (heap w ! b)"
    by (simp_all add: grows_def)
  from c len have c1: "curr_node < length (heap w1)" by simp
  have ch: "chain (heap w1) (Some curr_node) as" if "chain (heap w) (Some curr_node) as" for as
    using that len par by (rule chain_grow)
  show ?thesis
  proof (cases "truthy (children (heap w1 ! curr_node))")
    case False
    with True w1(1) have "expand_and_pick curr_node w = Inr (curr_node, w1)"
      by (simp add: expand_and_pick_def)
    moreover have "\<forall>as. chain (heap w) (Some curr_node) as
                 \<longrightarrow> (\<exists>pre. chain (heap w1) (Some curr_node) (pre @ as))"
      using ch by (metis append_Nil)
    ultimately show ?thesis using w1(2,3,5) c1 by blast
  next
    case t: True
    then have "kids (heap w1 ! curr_node) \<noteq> []" by (simp add: truthy_kids)
    from random_choice_ok[OF this] obtain k g where
      k: "random_choice (rand w1) (kids (heap w1 ! curr_node)) = Inr (k, g)"
      "k \<in> set (kids (heap w1 ! curr_node))" by blast
    let ?w' = "w1\<lparr>rand := g\<rparr>"
    note ic = inv_child[OF w1(2) c1 k(2)]
    from True w1(1) t k(1) have e: "expand_and_pick curr_node w = Inr (k, ?w')"
      by (simp add: expand_and_pick_def)
    have "grows w1 ?w'" by (simp add: grows_def)
    with w1(3) have g: "grows w ?w'" by (rule grows_trans)
    have "chain (heap ?w') (Some k) ([k] @ as)" if "chain (heap w) (Some curr_node) as" for as
      using ch[OF that] ic(1,2) by (simp add: chain.chain_Some)
    then have "\<forall>as. chain (heap w) (Some curr_node) as
                 \<longrightarrow> (\<exists>pre. chain (heap ?w') (Some k) (pre @ as))"
      by blast
    with e g w1(2,5) ic(1) show ?thesis by (intro exI[of _ k] exI[of _ ?w']) simp
  qed
qed

lemma mcts_step_ok:
  assumes inv: "tree_inv (heap w)" and rt: "rt < length (heap w)"
  shows "\<exists>w'. mcts_step rt w = Some (Inr w') \<and> tree_inv (heap w') \<and> grows w w'
           \<and> simulations (heap w' ! rt) = simulations (heap w ! rt) + 1"
proof -
  have "\<exists>w1. (if \<not> truthy (children (heap w ! rt)) then expand rt w else Inr w) = Inr w1
          \<and> tree_inv (heap w1) \<and> grows w w1
          \<and> (\<forall>b<length (heap w). simulations (heap w1 ! b) = simulations (heap w ! b))"
  proof (cases "truthy (children (heap w ! rt))")
    case True
    with inv grows_refl show ?thesis by simp
  next
    case False
    with expand_grows[OF inv rt False] show ?thesis by auto
  qed
  then obtain w1 where
    w1: "(if \<not> truthy (children (heap w ! rt)) then expand rt w else Inr w) = Inr w1"
    "tree_inv (heap w1)" "grows w w1"
    "\<forall>b<length (heap w). simulations (heap w1 ! b) = simulations (heap w ! b)"
    by blast
  from w1(3) rt have rt1: "rt < length (heap w1)" by (simp add: grows_def)
  from descend_ok[OF w1(2) rt1] obtain curr_node pre where
    d: "descend (heap w1) rt = Some (Inr curr_node)" "curr_node < length (heap w1)"
    "\<not> truthy (children (heap w1 ! curr_node)) \<or> simulations (heap w1 ! curr_node) = 0"
    "\<forall>as. chain (heap w1) (Some rt) as \<longrightarrow> chain (heap w1) (Some curr_node) (pre @ as)"
    by blast
  from expand_and_pick_ok[OF w1(2) d(2,3)] obtain node w2 where
    w2: "expand_and_pick curr_node w1 = Inr (node, w2)" "tree_inv (heap w2)"
    "node < length (heap w2)" "grows w1 w2"
    "\<forall>b<length (heap w1). simulations (heap w2 ! b) = simulations (heap w1 ! b)"
    "\<forall>as. chain (heap w1) (Some curr_node) as
        \<longrightarrow> (\<exists>pre. chain (heap w2) (Some node) (pre @ as))"
    by blast
  from random_rollout_ok[OF w2(2,3)] obtain w3 as where
    w3: "random_rollout node w2 = Some (Inr w3)" "chain (heap w2) (Some node) as"
    "tree_inv (heap w3)" "grows w2 w3"
    "\<forall>b<length (heap w2). simulations (heap w3 ! b)
        = simulations (heap w2 ! b) + (if b \<in> set as then 1 else 0)"
    by blast
  from chain_exists[OF w1(2) rt1] obtain as0 where as0: "chain (heap w1) (Some rt) as0"
    by blast
  then have "rt \<in> set as0" by (auto elim: chain.cases)
  from as0 d(4) have "chain (heap w1) (Some curr_node) (pre @ as0)" by simp
  with w2(6) obtain pre2 where "chain (heap w2) (Some node) (pre2 @ pre @ as0)" by blast
  with w3(2) have "as = pre2 @ pre @ as0" by (rule chain_unique)
  with \<open>rt \<in> set as0\<close> have mem: "rt \<in> set as" by simp
  from w2(4) rt1 have rt2: "rt < length (heap w2)" by (simp add: grows_def)
  from w3(5) rt2 mem w2(5) rt1 w1(4) rt
  have s: "simulations (heap w3 ! rt) = simulations (heap w ! rt) + 1" by simp
  have m: "mcts_step rt w = Some (Inr w3)"
    using w1(1) d(1) w2(1) w3(1) by (simp add: mcts_step_def)
  from w1(3) w2(4) w3(4) have "grows w w3" by (blast intro: grows_trans)
  with m s w3(3) show ?thesis by blast
qed

lemma mcts_ok:
  "tree_inv (heap w) \<Longrightarrow> rt < length (heap w) \<Longrightarrow>
   \<exists>w'. mcts rt n w = Some (Inr w') \<and> tree_inv (heap w') \<and> grows w w'
      \<and> simulations (heap w' ! rt) = simulations (heap w ! rt) + int n"
proof (induction n arbitrary: w)
  case 0
  then show ?case by (simp add: grows_refl)
next
  case (Suc n)
  from mcts_step_ok[OF Suc.prems] obtain w1 where
    w1: "mcts_step rt w = Some (Inr w1)" "tree_inv (heap w1)" "grows w w1"
    "simulations (heap w1 ! rt) = simulations (heap w ! rt) + 1"
    by blast
  from w1(3) Suc.prems(2) have "rt < length (heap w1)" by (simp add: grows_def)
  from Suc.IH[OF w1(2) this] obtain w' where
    w': "mcts rt n w1 = Some (Inr w')" "tree_inv (heap w')" "grows w1 w'"
    "simulations (heap w' ! rt) = simulations (heap w1 ! rt) + int n"
    by blast
  from w1(3) w'(3) have "grows w w'" by (rule grows_trans)
  with w1(1,4) w' show ?case by simp
qed

subsection \<open>The calls of expand in a run\<close>









section \<open>Claims about the search loop\<close>





text \<open>
  C7. A child with zero simulations is assigned the infinite score, whatever the node,
  and neither the ratio nor the exploration term is evaluated; the key never divides by
  zero. In a well-formed tree, which is what the search passes to \<open>select_child\<close>, a child
  with simulations has a parent with simulations, so the logarithm is taken of a
  positive count only: neither the key of any child of any node nor \<open>select_child\<close> on a
  node with children raises ZeroDivisionError or ValueError.
\<close>

theorem C7_zero_simulations_special_case:
  "(simulations child = 0 \<longrightarrow> ucb_key node child = Inr Infinity)
   \<and> ucb_key node child \<noteq> Inl ZeroDivisionError
   \<and> (tree_inv h \<longrightarrow> a < length h \<longrightarrow>
        (\<forall>c\<in>set (kids (h ! a)).
            (simulations (h ! c) \<noteq> 0 \<longrightarrow> 0 < simulations (h ! a))
            \<and> ucb_key (h ! a) (h ! c) \<noteq> Inl ZeroDivisionError
            \<and> ucb_key (h ! a) (h ! c) \<noteq> Inl ValueError)
        \<and> (truthy (children (h ! a)) \<longrightarrow>
              select_child h a \<noteq> Inl ZeroDivisionError
              \<and> select_child h a \<noteq> Inl ValueError))"
proof (intro conjI impI)
  assume "simulations child = 0"
  then show "ucb_key node child = Inr Infinity" by (rule ucb_key_zero_child)
next
  show "ucb_key node child \<noteq> Inl ZeroDivisionError" by (rule ucb_key_no_zero_division)
next
  assume inv: "tree_inv h" and a: "a < length h"
  have key: "(simulations (h ! c) \<noteq> 0 \<longrightarrow> 0 < simulations (h ! a))
      \<and> (\<exists>k. ucb_key (h ! a) (h ! c) = Inr k)"
    if "c \<in> set (kids (h ! a))" for c
  proof (cases "simulations (h ! c) = 0")
    case True
    then show ?thesis by (simp add: ucb_key_zero_child)
  next
    case False
    note ic = inv_child[OF inv a that]
    from False ic(5) have pos: "0 < simulations (h ! c)" by simp
    from ic(3)[OF pos] have "1 \<le> simulations (h ! a)" by simp
    from ucb_key_ok[OF this ic(5)] ic(3)[OF pos] show ?thesis by simp
  qed
  show "\<forall>c\<in>set (kids (h ! a)).
            (simulations (h ! c) \<noteq> 0 \<longrightarrow> 0 < simulations (h ! a))
            \<and> ucb_key (h ! a) (h ! c) \<noteq> Inl ZeroDivisionError
            \<and> ucb_key (h ! a) (h ! c) \<noteq> Inl ValueError"
  proof
    fix c
    assume "c \<in> set (kids (h ! a))"
    from key[OF this]
    show "(simulations (h ! c) \<noteq> 0 \<longrightarrow> 0 < simulations (h ! a))
            \<and> ucb_key (h ! a) (h ! c) \<noteq> Inl ZeroDivisionError
            \<and> ucb_key (h ! a) (h ! c) \<noteq> Inl ValueError"
      by auto
  qed
  assume t: "truthy (children (h ! a))"
  then obtain cs where cs: "children (h ! a) = Some cs" "cs \<noteq> []" "kids (h ! a) = cs"
    by (auto simp: truthy_def kids_def split: option.splits list.splits)
  from key cs(3) have "\<forall>c\<in>set cs. \<exists>k. ucb_key (h ! a) (h ! c) = Inr k" by blast
  from select_child_ok[OF cs(1,2) this] obtain c where "select_child h a = Inr c" by blast
  then show "select_child h a \<noteq> Inl ZeroDivisionError" "select_child h a \<noteq> Inl ValueError"
    by simp_all
qed

theorem C7_zero_simulations_special_case_witness:
  "simulations (new_child 0 demo_state) = 0
   \<and> ucb_key (demo_heap ! 0) (new_child 0 demo_state) = Inr Infinity
   \<and> tree_inv demo_heap \<and> 0 < length demo_heap \<and> 1 \<in> set (kids (demo_heap ! 0))
   \<and> simulations (demo_heap ! 1) \<noteq> 0 \<and> 0 < simulations (demo_heap ! 0)
   \<and> ucb_key (demo_heap ! 0) (demo_heap ! 1) \<noteq> Inl ValueError
   \<and> truthy (children (demo_heap ! 0))
   \<and> select_child demo_heap 0 \<noteq> Inl ValueError"
proof -
  have a: "simulations (new_child 0 demo_state) = 0" by (simp add: new_child_def)
  have i: "tree_inv demo_heap"
    by (simp add: tree_inv_iff demo_heap_def demo_state_def node_ok_def wf_board_def
        count_empty_def kids_def numeral_3_eq_3 less_Suc_eq)
  have l: "0 < length demo_heap" by (simp add: demo_heap_def)
  have k: "1 \<in> set (kids (demo_heap ! 0))" by (simp add: demo_heap_def kids_def)
  have n: "simulations (demo_heap ! 1) \<noteq> 0" by (simp add: demo_heap_def)
  have t: "truthy (children (demo_heap ! 0))" by (simp add: demo_heap_def truthy_def)
  from a C7_zero_simulations_special_case[of "new_child 0 demo_state" "demo_heap ! 0"]
  have 1: "ucb_key (demo_heap ! 0) (new_child 0 demo_state) = Inr Infinity" by blast
  note inst = C7_zero_simulations_special_case[of "new_child 0 demo_state" "demo_heap ! 0"
      demo_heap 0]
  from inst i l k n have 2: "0 < simulations (demo_heap ! 0)"
    "ucb_key (demo_heap ! 0) (demo_heap ! 1) \<noteq> Inl ValueError"
    by blast+
  from inst i l t have 3: "select_child demo_heap 0 \<noteq> Inl ValueError" by blast
  from a 1 i l k n 2 t 3 show ?thesis by blast
qed




text \<open>
  C5. From a fresh root (no parent, no simulation, no win, \<open>children\<close> None) on a 3 by 3
  board, for every number \<open>n\<close> of iterations and every stream of random choices, the
  search returns without an exception and the root's simulation count is \<open>n\<close>.
\<close>

theorem C5_root_simulations_count_iterations:
  assumes "wf_board (board s)"
  shows "\<exists>w'. mcts 0 n \<lparr>heap = [fresh_root s], rand = g, expand_log = []\<rparr> = Some (Inr w')
           \<and> simulations (heap w' ! 0) = int n"
proof -
  let ?w = "\<lparr>heap = [fresh_root s], rand = g, expand_log = []\<rparr>"
  have "tree_inv (heap ?w)" "0 < length (heap ?w)"
    using assms by (simp_all add: tree_inv_fresh)
  from mcts_ok[OF this, of n] show ?thesis
    by (auto simp: fresh_root_def)
qed

theorem C5_root_simulations_count_iterations_witness:
  "wf_board (board \<lparr>board = [[0, 0, 0], [0, 0, 0], [0, 0, 0]], turn = Turn_x\<rparr>)
   \<and> (\<exists>w'. mcts 0 7 \<lparr>heap = [fresh_root \<lparr>board = [[0, 0, 0], [0, 0, 0], [0, 0, 0]],
                                             turn = Turn_x\<rparr>],
                      rand = (\<lambda>n. n), expand_log = []\<rparr> = Some (Inr w')
         \<and> simulations (heap w' ! 0) = 7)"
proof -
  have a: "wf_board (board \<lparr>board = [[0, 0, 0], [0, 0, 0], [0, 0, 0]], turn = Turn_x\<rparr>)"
    by (simp add: wf_board_def)
  from C5_root_simulations_count_iterations[OF a, of 7 "\<lambda>n. n"] a
  show ?thesis by simp
qed

text \<open>
  C9. On a well-formed tree (a fresh root on a 3 by 3 board is one, and every tree the
  search returns is one again), for every number of iterations and every stream of
  random choices, the search returns, without an exception. The reasons the claim gives
  hold as well: a playout from a 3 by 3 board returns after at most as many moves as the
  board has empty cells, each valid move leaving one empty cell fewer; and each pass of
  the descent loop moves to a child, whose board has fewer empty cells than the node's.
\<close>

theorem C9_search_terminates:
  assumes "tree_inv (heap w)" and "rt < length (heap w)"
  shows "(\<exists>w'. mcts rt n w = Some (Inr w') \<and> tree_inv (heap w') \<and> rt < length (heap w'))
    \<and> (\<forall>g s. wf_board (board s) \<longrightarrow>
          (\<exists>winner k g'. playout g s = Inr (winner, k, g') \<and> k \<le> count_empty (board s)))
    \<and> (\<forall>s acts a. get_valid_actions s = Inr acts \<longrightarrow> a \<in> set acts \<longrightarrow>
          (\<exists>s'. apply_action a s = Inr s'
             \<and> Suc (count_empty (board s')) = count_empty (board s)))
    \<and> (\<forall>a<length (heap w). truthy (children (heap w ! a)) \<longrightarrow>
          (\<exists>c go. descend_step (heap w) a = Inr (c, go) \<and> c \<in> set (kids (heap w ! a))
             \<and> c < length (heap w)
             \<and> count_empty (board (state (heap w ! c)))
                 < count_empty (board (state (heap w ! a)))))"
proof (intro conjI allI impI)
  from mcts_ok[OF assms, of n] obtain w' where
    w': "mcts rt n w = Some (Inr w')" "tree_inv (heap w')" "grows w w'" by blast
  from w'(3) assms(2) have "rt < length (heap w')" by (simp add: grows_def)
  with w'(1,2) show "\<exists>w'. mcts rt n w = Some (Inr w') \<and> tree_inv (heap w') \<and> rt < length (heap w')"
    by blast
next
  fix g and s :: State
  assume "wf_board (board s)"
  then show "\<exists>winner k g'. playout g s = Inr (winner, k, g') \<and> k \<le> count_empty (board s)"
    by (rule playout_ok)
next
  fix s :: State and acts a
  assume "get_valid_actions s = Inr acts" and "a \<in> set acts"
  from apply_valid_action[OF this]
  show "\<exists>s'. apply_action a s = Inr s' \<and> Suc (count_empty (board s')) = count_empty (board s)"
    by blast
next
  fix a
  assume a: "a < length (heap w)" and t: "truthy (children (heap w ! a))"
  from descend_step_ok[OF assms(1) a t] obtain c go where
    c: "descend_step (heap w) a = Inr (c, go)" "c \<in> set (kids (heap w ! a))" by blast
  note ic = inv_child[OF assms(1) a c(2)]
  from c ic(1,4)
  show "\<exists>c go. descend_step (heap w) a = Inr (c, go) \<and> c \<in> set (kids (heap w ! a))
             \<and> c < length (heap w)
             \<and> count_empty (board (state (heap w ! c)))
                 < count_empty (board (state (heap w ! a)))"
    by blast
qed

lemma demo_heap_inv: "tree_inv demo_heap"
  by (simp add: tree_inv_iff demo_heap_def demo_state_def node_ok_def wf_board_def
      count_empty_def kids_def numeral_3_eq_3 less_Suc_eq)

theorem C9_search_terminates_witness:
  "tree_inv (heap \<lparr>heap = demo_heap, rand = (\<lambda>n. 2 * n), expand_log = []\<rparr>)
   \<and> 0 < length (heap \<lparr>heap = demo_heap, rand = (\<lambda>n. 2 * n), expand_log = []\<rparr>)
   \<and> (\<exists>w'. mcts 0 1000 \<lparr>heap = demo_heap, rand = (\<lambda>n. 2 * n), expand_log = []\<rparr>
             = Some (Inr w'))
   \<and> truthy (children (demo_heap ! 0))
   \<and> (\<exists>c go. descend_step demo_heap 0 = Inr (c, go) \<and> c \<in> set (kids (demo_heap ! 0))
         \<and> count_empty (board (state (demo_heap ! c)))
             < count_empty (board (state (demo_heap ! 0))))"
proof -
  let ?w = "\<lparr>heap = demo_heap, rand = (\<lambda>n. 2 * n), expand_log = []\<rparr>"
  have a: "tree_inv (heap ?w)" "0 < length (heap ?w)"
    by (simp_all add: demo_heap_inv) (simp add: demo_heap_def)
  have t: "truthy (children (demo_heap ! 0))"
    by (simp add: demo_heap_def truthy_def)
  note inst = C9_search_terminates[OF a, of 1000]
  from inst have 1: "\<exists>w'. mcts 0 1000 ?w = Some (Inr w')" by blast
  from inst a(2) t have 2: "\<exists>c go. descend_step demo_heap 0 = Inr (c, go)
         \<and> c \<in> set (kids (demo_heap ! 0))
         \<and> count_empty (board (state (demo_heap ! c)))
             < count_empty (board (state (demo_heap ! 0)))"
    by fastforce
  from a t 1 2 show ?thesis by blast
qed

end
